theory Spec2Isabelle
  imports Main "HOL-Library.AList" "HOL-Library.List_Lexorder" "HOL-Library.Product_Lexorder"
begin

section \<open>Strings and the Unicode tables the program reads\<close>

text \<open>
  A Python \<open>str\<close> is a sequence of Unicode code points; it is modelled as a list of
  natural numbers. \<open>u\<close> writes an ASCII literal.

  The program reads five tables of the Unicode character database, through
  \<open>str.lower\<close>, \<open>str.upper\<close>, \<open>unicodedata.normalize("NFKD", _)\<close>, the
  regular-expression classes \<open>\w\<close> and \<open>\s\<close> (and \<open>str.split\<close>,
  \<open>str.strip\<close>). They are written out for the code points U+0000 to U+00FF (ASCII
  and Latin-1, which hold the Spanish alphabet) and for U+2122 (the trade mark sign);
  a code point beyond them is treated as caseless, without decomposition, and neither
  a word character nor white space. The statements below that are about all strings
  depend on the tables in one point only, that the space and the period are not word
  characters; a statement that depends on more of them says which code points it is
  about, and the statement on folding twice takes the two library functions of
  \<open>remove_accents\<close> as parameters.
\<close>

type_synonym ustr = "nat list"

definition u :: "string \<Rightarrow> ustr" where
  "u s = map of_char s"

definition lower_cp :: "nat \<Rightarrow> nat" where
  "lower_cp c =
     (if 65 \<le> c \<and> c \<le> 90 then c + 32
      else if 192 \<le> c \<and> c \<le> 222 \<and> c \<noteq> 215 then c + 32
      else c)"

definition py_lower :: "ustr \<Rightarrow> ustr" where
  "py_lower s = map lower_cp s"

text \<open>
  \<open>str.upper\<close> can lengthen a string: U+00DF (sharp s) becomes \<open>SS\<close>; U+00FF and
  U+00B5 leave Latin-1 (U+0178, U+039C).
\<close>

definition upper_cp :: "nat \<Rightarrow> ustr" where
  "upper_cp c =
     (if 97 \<le> c \<and> c \<le> 122 then [c - 32]
      else if 224 \<le> c \<and> c \<le> 254 \<and> c \<noteq> 247 then [c - 32]
      else if c = 223 then [83, 83]
      else if c = 255 then [376]
      else if c = 181 then [924]
      else [c])"

definition py_upper :: "ustr \<Rightarrow> ustr" where
  "py_upper s = concat (map upper_cp s)"

text \<open>
  \<open>\w\<close> of a \<open>str\<close> pattern: \<open>str.isalnum\<close> or the underscore. In Latin-1 that is the
  ASCII letters and digits, the ordinal indicators U+00AA and U+00BA, the micro sign,
  the superscript digits and vulgar fractions, and the letters U+00C0 to U+00FF
  without the multiplication and division signs.
\<close>

definition is_word :: "nat \<Rightarrow> bool" where
  "is_word c =
     ((48 \<le> c \<and> c \<le> 57) \<or> (65 \<le> c \<and> c \<le> 90) \<or> c = 95 \<or> (97 \<le> c \<and> c \<le> 122)
      \<or> c = 170 \<or> c = 178 \<or> c = 179 \<or> c = 181 \<or> c = 185 \<or> c = 186
      \<or> (188 \<le> c \<and> c \<le> 190)
      \<or> (192 \<le> c \<and> c \<le> 255 \<and> c \<noteq> 215 \<and> c \<noteq> 247))"

text \<open>\<open>\s\<close>, \<open>str.isspace\<close>: the white space of \<open>str.split()\<close> and \<open>str.strip()\<close>.\<close>

definition is_space :: "nat \<Rightarrow> bool" where
  "is_space c = ((9 \<le> c \<and> c \<le> 13) \<or> (28 \<le> c \<and> c \<le> 32) \<or> c = 133 \<or> c = 160)"

text \<open>
  The full compatibility decomposition of one code point. \<open>latin1_letters\<close> lists, for
  U+00C0 to U+00FF in order, the base letter and the combining mark (\<open>(0, 0)\<close>: the
  code point has no decomposition).
\<close>

definition latin1_letters :: "(nat \<times> nat) list" where
  "latin1_letters =
     [(65, 768), (65, 769), (65, 770), (65, 771), (65, 776), (65, 778), (0, 0), (67, 807),
      (69, 768), (69, 769), (69, 770), (69, 776), (73, 768), (73, 769), (73, 770), (73, 776),
      (0, 0), (78, 771), (79, 768), (79, 769), (79, 770), (79, 771), (79, 776), (0, 0),
      (0, 0), (85, 768), (85, 769), (85, 770), (85, 776), (89, 769), (0, 0), (0, 0),
      (97, 768), (97, 769), (97, 770), (97, 771), (97, 776), (97, 778), (0, 0), (99, 807),
      (101, 768), (101, 769), (101, 770), (101, 776), (105, 768), (105, 769), (105, 770), (105, 776),
      (0, 0), (110, 771), (111, 768), (111, 769), (111, 770), (111, 771), (111, 776), (0, 0),
      (0, 0), (117, 768), (117, 769), (117, 770), (117, 776), (121, 769), (0, 0), (121, 776)]"

definition decompose_cp :: "nat \<Rightarrow> ustr" where
  "decompose_cp c =
     (if c = 160 then [32]
      else if c = 168 then [32, 776]
      else if c = 170 then [97]
      else if c = 175 then [32, 772]
      else if c = 178 then [50]
      else if c = 179 then [51]
      else if c = 180 then [32, 769]
      else if c = 181 then [956]
      else if c = 184 then [32, 807]
      else if c = 185 then [49]
      else if c = 186 then [111]
      else if c = 188 then [49, 8260, 52]
      else if c = 189 then [49, 8260, 50]
      else if c = 190 then [51, 8260, 52]
      else if 192 \<le> c \<and> c \<le> 255 then
        (case latin1_letters ! (c - 192) of
           (b, m) \<Rightarrow> if b = 0 then [c] else [b, m])
      else if c = 8482 then [84, 77]
      else [c])"

text \<open>
  \<open>unicodedata.normalize("NFKD", s)\<close>. The canonical reordering of combining marks is
  left out: it permutes code points above U+007F only, and the one caller deletes
  those in its next step.
\<close>

definition nfkd :: "ustr \<Rightarrow> ustr" where
  "nfkd s = concat (map decompose_cp s)"

text \<open>\<open>s.encode("ASCII", "ignore").decode("utf-8")\<close>\<close>

definition encode_ascii_ignore :: "ustr \<Rightarrow> ustr" where
  "encode_ascii_ignore s = filter (\<lambda>c. c < 128) s"

subsection \<open>String operations of the Python library\<close>

fun starts_with :: "'a list \<Rightarrow> 'a list \<Rightarrow> bool" where
  "starts_with s [] = True"
| "starts_with [] (p # ps) = False"
| "starts_with (c # cs) (p # ps) = (c = p \<and> starts_with cs ps)"

text \<open>
  \<open>s.replace(old, new)\<close> for a non-empty \<open>old\<close>: the occurrences are found from the
  left and do not overlap.
\<close>

fun replace_ne :: "'a list \<Rightarrow> 'a list \<Rightarrow> 'a list \<Rightarrow> 'a list" where
  "replace_ne old new [] = []"
| "replace_ne old new (c # cs) =
     (if starts_with (c # cs) old
      then new @ replace_ne old new (drop (length old - 1) cs)
      else c # replace_ne old new cs)"

text \<open>With an empty \<open>old\<close>, Python puts \<open>new\<close> before every character and at the end.\<close>

definition py_replace :: "'a list \<Rightarrow> 'a list \<Rightarrow> 'a list \<Rightarrow> 'a list" where
  "py_replace old new s =
     (if old = [] then new @ concat (map (\<lambda>c. c # new) s) else replace_ne old new s)"

fun py_join :: "'a list \<Rightarrow> 'a list list \<Rightarrow> 'a list" where
  "py_join sep [] = []"
| "py_join sep [x] = x"
| "py_join sep (x # y # ys) = x @ sep @ py_join sep (y # ys)"

text \<open>\<open>xs[i:j]\<close> for \<open>0 \<le> i\<close>: the bounds are clamped to the list.\<close>

definition py_slice :: "'a list \<Rightarrow> nat \<Rightarrow> nat \<Rightarrow> 'a list" where
  "py_slice xs i j = take (j - i) (drop i xs)"

text \<open>\<open>str(i)\<close> for a natural number, as the f-string \<open>f"PLACEHOLDER_{i}"\<close> renders it.\<close>

fun str_nat :: "nat \<Rightarrow> ustr" where
  "str_nat n = (if n < 10 then [48 + n] else str_nat (n div 10) @ [48 + n mod 10])"

section \<open>text\_utils.py\<close>

definition default_protected :: "ustr list" where
  "default_protected = [[241], [252], [176], [186]]"

definition placeholder :: "nat \<Rightarrow> ustr" where
  "placeholder i = u ''PLACEHOLDER_'' @ str_nat i"

text \<open>
  The first loop of \<open>remove_accents\<close>: \<open>i\<close> counts the protected characters already
  seen, the state is the string and the list \<open>placeholders\<close>.
\<close>

fun protect :: "nat \<Rightarrow> ustr list \<Rightarrow> ustr \<times> (ustr \<times> ustr) list \<Rightarrow> ustr \<times> (ustr \<times> ustr) list" where
  "protect i [] (input_str, placeholders) = (input_str, placeholders)"
| "protect i (ch # chars) (input_str, placeholders) =
     protect (Suc i) chars
       (py_replace ch (placeholder i) input_str, placeholders @ [(placeholder i, ch)])"

fun restore :: "(ustr \<times> ustr) list \<Rightarrow> ustr \<Rightarrow> ustr" where
  "restore [] only_ascii = only_ascii"
| "restore ((ph, ch) # ps) only_ascii =
     restore ps (py_replace ph ch only_ascii)"

text \<open>
  \<open>remove_accents\<close>, lines 33 to 43. The function calls into the Unicode character
  database twice, with \<open>input_str.lower()\<close> and with
  \<open>unicodedata.normalize("NFKD", input_str)\<close>; in \<open>remove_accents_lib\<close> these two
  library functions are the parameters \<open>str_lower\<close> and \<open>normalize_nfkd\<close>, and
  \<open>remove_accents_with\<close> passes the tables written out above.
\<close>

definition remove_accents_lib ::
  "(ustr \<Rightarrow> ustr) \<Rightarrow> (ustr \<Rightarrow> ustr) \<Rightarrow> ustr list \<Rightarrow> ustr \<Rightarrow> ustr" where
  "remove_accents_lib str_lower normalize_nfkd protected_chars input_str =
     (case protect 0 protected_chars (str_lower input_str, []) of
        (replaced, placeholders) \<Rightarrow>
          restore placeholders (encode_ascii_ignore (normalize_nfkd replaced)))"

definition remove_accents_with :: "ustr list \<Rightarrow> ustr \<Rightarrow> ustr" where
  "remove_accents_with protected_chars input_str =
     remove_accents_lib py_lower nfkd protected_chars input_str"

definition remove_accents :: "ustr \<Rightarrow> ustr" where
  "remove_accents input_str = remove_accents_with default_protected input_str"

text \<open>
  The fixed table \<open>known_abbreviations\<close> of \<open>preprocess_text\<close>, in its insertion order.
\<close>

definition known_abbreviations :: "(ustr \<times> ustr) list" where
  "known_abbreviations =
     [(u ''s.a.r.'', u ''sar''), (u ''dr.'', u ''doctor''), (u ''r.'', u ''republica'')]"

fun replace_all :: "(ustr \<times> ustr) list \<Rightarrow> ustr \<Rightarrow> ustr" where
  "replace_all [] text = text"
| "replace_all ((abbreviation, replacement) # rest) text =
     replace_all rest (py_replace abbreviation replacement text)"

text \<open>\<open>re.sub(r"[-./]", " ", text)\<close>\<close>

definition sub_punctuation :: "ustr \<Rightarrow> ustr" where
  "sub_punctuation text = map (\<lambda>c. if c = 45 \<or> c = 46 \<or> c = 47 then 32 else c) text"

text \<open>\<open>re.sub(r"\s+", " ", text)\<close>: every maximal run of white space becomes one space.\<close>

function sub_spaces :: "ustr \<Rightarrow> ustr" where
  "sub_spaces [] = []"
| "sub_spaces (c # cs) =
     (if is_space c then 32 # sub_spaces (dropWhile is_space cs) else c # sub_spaces cs)"
  by pat_completeness auto
termination
  by (relation "measure length") (auto simp: length_dropWhile_le less_Suc_eq_le)

text \<open>\<open>text.split()\<close>: the maximal runs of characters that are not white space.\<close>

fun split_from :: "ustr \<Rightarrow> ustr \<Rightarrow> ustr list" where
  "split_from word [] = (if word = [] then [] else [word])"
| "split_from word (c # cs) =
     (if is_space c then (if word = [] then split_from [] cs else word # split_from [] cs)
      else split_from (word @ [c]) cs)"

definition py_split :: "ustr \<Rightarrow> ustr list" where
  "py_split text = split_from [] text"

definition py_strip :: "ustr \<Rightarrow> ustr" where
  "py_strip text = rev (dropWhile is_space (rev (dropWhile is_space text)))"

text \<open>
  \<open>ignore_prepositions\<close> is \<open>None\<close> or a list; the test \<open>if ignore_prepositions:\<close>
  holds for a list that is not empty.
\<close>

definition preprocess_text :: "ustr \<Rightarrow> ustr list option \<Rightarrow> ustr" where
  "preprocess_text text ignore_prepositions =
     (let text1 = remove_accents text;
          text2 = replace_all known_abbreviations text1;
          text3 = sub_punctuation text2;
          text4 = sub_spaces text3;
          text5 =
            (case ignore_prepositions of
               None \<Rightarrow> text4
             | Some preps \<Rightarrow>
                 if preps = [] then text4
                 else py_join [32] (filter (\<lambda>word. py_lower word \<notin> set preps) (py_split text4)))
      in py_strip text5)"

section \<open>address\_utils.py\<close>

text \<open>
  \<open>re.findall(r"\b[\w\'-]+|\.", s)\<close>. The scan keeps whether the character before the
  cursor is a word character, which is what \<open>\b\<close> compares with the character at the
  cursor (no character counts as a non-word character). At a boundary the first
  alternative takes the longest run of word characters, apostrophes and hyphens;
  otherwise a period is a token of its own; otherwise the cursor moves on by one.
\<close>

definition tok_char :: "nat \<Rightarrow> bool" where
  "tok_char c = (is_word c \<or> c = 39 \<or> c = 45)"

function tokens_from :: "bool \<Rightarrow> ustr \<Rightarrow> ustr list" where
  "tokens_from prev_word [] = []"
| "tokens_from prev_word (c # cs) =
     (if tok_char c \<and> prev_word \<noteq> is_word c
      then (c # takeWhile tok_char cs)
             # tokens_from (is_word (last (c # takeWhile tok_char cs))) (dropWhile tok_char cs)
      else if c = 46 then [46] # tokens_from False cs
      else tokens_from (is_word c) cs)"
  by pat_completeness auto
termination
  by (relation "measure (\<lambda>(p, s). length s)") (auto simp: length_dropWhile_le less_Suc_eq_le)

definition tokenize :: "ustr \<Rightarrow> ustr list" where
  "tokenize s = tokens_from False s"

text \<open>
  The first three statements of \<open>correct_spelling\<close>: lower case, the acute accent
  U+00B4 and the grave accent U+0060 to an apostrophe, \<open>remove_accents\<close>.
\<close>

definition normalize_street_name :: "ustr \<Rightarrow> ustr" where
  "normalize_street_name street_name =
     remove_accents (py_replace [96] [39] (py_replace [180] [39] (py_lower street_name)))"

text \<open>
  A \<open>dict\<close> is an association list with distinct keys, in insertion order.
  \<open>sorted(misspellings.items(), key=lambda item: len(item[0]), reverse=True)\<close>: the
  sort is stable, also with \<open>reverse=True\<close>, so it is a stable ascending sort by the
  negated length.
\<close>

definition sort_misspellings :: "(ustr \<times> ustr) list \<Rightarrow> (ustr \<times> ustr) list" where
  "sort_misspellings misspellings = sort_key (\<lambda>item. - int (length (fst item))) misspellings"

text \<open>The phrase compared with a key: line 54 of the source.\<close>

definition phrase_to_check :: "ustr list \<Rightarrow> nat \<Rightarrow> nat \<Rightarrow> ustr" where
  "phrase_to_check words i misspelled_len =
     py_replace [32, 46] [46] (py_join [32] (py_slice words i (i + misspelled_len)))"

text \<open>The condition of line 55.\<close>

definition key_matches :: "ustr list \<Rightarrow> nat \<Rightarrow> ustr \<Rightarrow> bool" where
  "key_matches words i misspelled =
     (i + length (tokenize misspelled) \<le> length words
      \<and> phrase_to_check words i (length (tokenize misspelled)) = misspelled)"

text \<open>
  The \<open>for\<close> loop with its \<open>break\<close>: the first entry whose key matches at \<open>i\<close>, as the
  number of tokens to skip and the correction to append.
\<close>

fun find_match :: "(ustr \<times> ustr) list \<Rightarrow> ustr list \<Rightarrow> nat \<Rightarrow> (nat \<times> ustr) option" where
  "find_match [] words i = None"
| "find_match ((misspelled, correct) # rest) words i =
     (if key_matches words i misspelled
      then Some (length (tokenize misspelled), correct)
      else find_match rest words i)"

text \<open>
  The \<open>while\<close> loop. Nothing in the source bounds the number of its rounds, so it is
  a partial function: \<open>None\<close> is a run that never leaves the loop.
\<close>

partial_function (option) correct_loop ::
  "(ustr \<times> ustr) list \<Rightarrow> ustr list \<Rightarrow> nat \<Rightarrow> ustr list \<Rightarrow> ustr list option" where
  "correct_loop misspellings words i corrected_words =
     (if i < length words then
        (case find_match misspellings words i of
           Some (misspelled_len, correct) \<Rightarrow>
             correct_loop misspellings words (i + misspelled_len) (corrected_words @ [correct])
         | None \<Rightarrow>
             correct_loop misspellings words (i + 1) (corrected_words @ [words ! i]))
      else Some corrected_words)"

declare correct_loop.simps [code]

definition correct_spelling :: "ustr \<Rightarrow> (ustr \<times> ustr) list \<Rightarrow> ustr option" where
  "correct_spelling street_name misspellings =
     map_option (py_join [32])
       (correct_loop (sort_misspellings misspellings)
          (tokenize (normalize_street_name street_name)) 0 [])"

section \<open>dataframe\_utils.py\<close>

text \<open>
  A cell of a dataframe is missing (\<open>NaN\<close>, \<open>None\<close>: what \<open>pd.isna\<close> accepts), a
  string, or a value that is not a string (an integer). A dataframe is its index (the
  row labels) and its columns in order, each with one cell for every row. The
  exceptions the functions raise are values.
\<close>

datatype cell = Missing | Str ustr | Num int

datatype error = KeyError | ValueError | AttributeError

record dataframe =
  df_index :: "nat list"
  df_columns :: "(ustr \<times> cell list) list"

definition notna :: "cell \<Rightarrow> bool" where
  "notna c = (c \<noteq> Missing)"

definition str_int :: "int \<Rightarrow> ustr" where
  "str_int n = (if n < 0 then 45 # str_nat (nat (- n)) else str_nat (nat n))"

text \<open>\<open>astype(str)\<close> on one cell.\<close>

definition astype_str :: "cell \<Rightarrow> ustr" where
  "astype_str c = (case c of Str s \<Rightarrow> s | Num n \<Rightarrow> str_int n | Missing \<Rightarrow> u ''nan'')"

text \<open>\<open>Series.unique()\<close>: the distinct values in the order of their first appearance.\<close>

definition pd_unique :: "'a list \<Rightarrow> 'a list" where
  "pd_unique xs = rev (remdups (rev xs))"

subsection \<open>get\_unique\_names\<close>

definition column_names :: "cell list \<Rightarrow> ustr list" where
  "column_names col = map py_lower (pd_unique (map astype_str (filter notna col)))"

text \<open>
  \<open>sorted(set(names), key=lambda s: (-len(s), s))\<close>. Python compares strings code
  point by code point, which is the lexicographic order of lists. The key is
  injective, so the result does not depend on the order in which the set is iterated;
  \<open>remdups\<close> fixes one.
\<close>

definition sort_names :: "ustr list \<Rightarrow> ustr list" where
  "sort_names names = sort_key (\<lambda>s. (- int (length s), s)) (remdups names)"

text \<open>
  \<open>target_var2\<close> is \<open>None\<close> or a string. The check of line 27 is
  \<open>target_var2 is not None\<close>; the test of line 34 is \<open>if target_var2:\<close>, which an
  empty string fails.
\<close>

definition get_unique_names :: "dataframe \<Rightarrow> ustr \<Rightarrow> ustr option \<Rightarrow> error + ustr list" where
  "get_unique_names df target_var target_var2 =
     (case map_of (df_columns df) target_var of
        None \<Rightarrow> Inl KeyError
      | Some col1 \<Rightarrow>
          (case target_var2 of
             None \<Rightarrow> Inr (sort_names (column_names col1))
           | Some tv2 \<Rightarrow>
               (case map_of (df_columns df) tv2 of
                  None \<Rightarrow> Inl KeyError
                | Some col2 \<Rightarrow>
                    Inr (sort_names
                          (column_names col1 @ (if tv2 \<noteq> [] then column_names col2 else []))))))"

subsection \<open>pair\_values\_to\_key\<close>

text \<open>
  \<open>output_dict[k] = v\<close> on an insertion-ordered \<open>dict\<close> is \<open>AList.update\<close>: a key
  already there keeps its place and takes the new value, a new key goes to the end.
\<close>

fun register_values :: "ustr \<Rightarrow> ustr list \<Rightarrow> (ustr \<times> ustr) list \<Rightarrow> (ustr \<times> ustr) list" where
  "register_values key [] output_dict = output_dict"
| "register_values key (v # values) output_dict =
     register_values key values (AList.update (py_lower v) key output_dict)"

fun register_keys ::
  "(ustr \<times> ustr list) list \<Rightarrow> (ustr \<times> ustr) list \<Rightarrow> (ustr \<times> ustr) list" where
  "register_keys [] output_dict = output_dict"
| "register_keys ((key, values) # rest) output_dict =
     register_keys rest
       (register_values key values (AList.update (py_lower key) key output_dict))"

text \<open>
  With \<open>sort_keys\<close> the dictionary is rebuilt from
  \<open>sorted(output_dict, key=len, reverse=True)\<close>; its keys are distinct, so that is the
  stable sort of its entries by the negated length of the key.
\<close>

definition pair_values_to_key :: "(ustr \<times> ustr list) list \<Rightarrow> bool \<Rightarrow> (ustr \<times> ustr) list" where
  "pair_values_to_key input_dict sort_keys =
     (let output_dict = register_keys input_dict []
      in if sort_keys then sort_key (\<lambda>item. - int (length (fst item))) output_dict
         else output_dict)"

subsection \<open>extract\_and\_store\_patterns\<close>

text \<open>
  The compiled pattern \<open>\bP\b\<close> with \<open>re.IGNORECASE\<close>, where \<open>P\<close> is an escaped
  literal, is represented by the literal. \<open>regex_search\<close> is \<open>regex.search(text)\<close>
  followed by \<open>match.start()\<close>: the least offset at which the text continues with the
  literal, compared in lower case, between two word boundaries.
\<close>

definition word_at :: "ustr \<Rightarrow> nat \<Rightarrow> bool" where
  "word_at text i = (i < length text \<and> is_word (text ! i))"

definition boundary_at :: "ustr \<Rightarrow> nat \<Rightarrow> bool" where
  "boundary_at text i = ((0 < i \<and> word_at text (i - 1)) \<noteq> word_at text i)"

definition literal_at :: "ustr \<Rightarrow> ustr \<Rightarrow> nat \<Rightarrow> bool" where
  "literal_at literal text i =
     (i + length literal \<le> length text
      \<and> py_lower (take (length literal) (drop i text)) = py_lower literal)"

definition regex_search :: "ustr \<Rightarrow> ustr \<Rightarrow> nat option" where
  "regex_search literal text =
     find (\<lambda>i. boundary_at text i \<and> literal_at literal text i
                \<and> boundary_at text (i + length literal))
       [0 ..< Suc (length text)]"

text \<open>\<open>pattern.split(" - ")[0]\<close>: the part before the first separator.\<close>

fun before_sep :: "ustr \<Rightarrow> ustr \<Rightarrow> ustr" where
  "before_sep sep [] = []"
| "before_sep sep (c # cs) = (if starts_with (c # cs) sep then [] else c # before_sep sep cs)"

datatype patterns = PatternList "ustr list" | PatternDict "(ustr \<times> ustr list) list"

fun lower_keys :: "ustr list \<Rightarrow> (ustr \<times> ustr) list \<Rightarrow> (ustr \<times> ustr) list" where
  "lower_keys [] d = d"
| "lower_keys (pattern # rest) d = lower_keys rest (AList.update (py_lower pattern) pattern d)"

definition pattern_to_full_name :: "patterns \<Rightarrow> (ustr \<times> ustr) list" where
  "pattern_to_full_name ps =
     (case ps of
        PatternDict d \<Rightarrow> pair_values_to_key d True
      | PatternList l \<Rightarrow> lower_keys l [])"

text \<open>
  \<open>compiled_patterns\<close> is a \<open>dict\<close> whose keys are the compiled patterns; two of them
  are the same key when they were compiled from the same text.
\<close>

fun compile_patterns ::
  "bool \<Rightarrow> ustr list option \<Rightarrow> (ustr \<times> ustr) list \<Rightarrow> (ustr \<times> ustr) list \<Rightarrow> (ustr \<times> ustr) list" where
  "compile_patterns composed ignore_prepositions [] compiled_patterns = compiled_patterns"
| "compile_patterns composed ignore_prepositions ((pattern, full_name) # rest) compiled_patterns =
     (let pattern_part = (if composed then before_sep (u '' - '') pattern else pattern);
          processed_pattern = preprocess_text pattern_part ignore_prepositions
      in compile_patterns composed ignore_prepositions rest
           (AList.update processed_pattern full_name compiled_patterns))"

text \<open>
  The loop of \<open>find_earliest_pattern\<close>; the state is the start of \<open>earliest_match\<close> and
  \<open>earliest_match_name\<close>.
\<close>

fun earliest_loop ::
  "(ustr \<times> ustr) list \<Rightarrow> ustr \<Rightarrow> nat option \<Rightarrow> ustr option \<Rightarrow> ustr option" where
  "earliest_loop [] processed_text earliest_match earliest_match_name = earliest_match_name"
| "earliest_loop ((regex, full_name) # rest) processed_text earliest_match earliest_match_name =
     (case regex_search regex processed_text of
        None \<Rightarrow> earliest_loop rest processed_text earliest_match earliest_match_name
      | Some start \<Rightarrow>
          if (case earliest_match of None \<Rightarrow> True | Some earliest \<Rightarrow> start < earliest)
          then earliest_loop rest processed_text (Some start) (Some full_name)
          else earliest_loop rest processed_text earliest_match earliest_match_name)"

text \<open>
  A missing cell returns at once. A cell that is neither missing nor a string reaches
  \<open>input_str.lower()\<close> in \<open>remove_accents\<close>, which raises \<open>AttributeError\<close>.
\<close>

definition find_earliest_pattern ::
  "(ustr \<times> ustr) list \<Rightarrow> ustr list option \<Rightarrow> cell \<Rightarrow> error + cell" where
  "find_earliest_pattern compiled_patterns ignore_prepositions text =
     (case text of
        Missing \<Rightarrow> Inr Missing
      | Num n \<Rightarrow> Inl AttributeError
      | Str s \<Rightarrow>
          (case earliest_loop compiled_patterns (preprocess_text s ignore_prepositions) None None of
             None \<Rightarrow> Inr Missing
           | Some name \<Rightarrow> Inr (Str name)))"

text \<open>\<open>Series.apply(f)\<close>: the first exception ends it.\<close>

fun series_apply :: "(cell \<Rightarrow> error + cell) \<Rightarrow> cell list \<Rightarrow> error + cell list" where
  "series_apply f [] = Inr []"
| "series_apply f (c # cs) =
     (case f c of
        Inl e \<Rightarrow> Inl e
      | Inr v \<Rightarrow> (case series_apply f cs of Inl e \<Rightarrow> Inl e | Inr vs \<Rightarrow> Inr (v # vs)))"

text \<open>\<open>lambda x: x.upper() if isinstance(x, str) else x\<close>\<close>

definition upper_if_str :: "cell \<Rightarrow> cell" where
  "upper_if_str x = (case x of Str s \<Rightarrow> Str (py_upper s) | Missing \<Rightarrow> x | Num n \<Rightarrow> x)"

definition extract_and_store_patterns ::
  "dataframe \<Rightarrow> patterns \<Rightarrow> ustr \<Rightarrow> ustr \<Rightarrow> bool \<Rightarrow> ustr list option \<Rightarrow> error + dataframe" where
  "extract_and_store_patterns df ps target_var base_var composed ignore_prepositions =
     (let compiled_patterns =
            compile_patterns composed ignore_prepositions (pattern_to_full_name ps) []
      in case map_of (df_columns df) base_var of
           None \<Rightarrow> Inl KeyError
         | Some base \<Rightarrow>
             (case series_apply (find_earliest_pattern compiled_patterns ignore_prepositions) base of
                Inl e \<Rightarrow> Inl e
              | Inr found \<Rightarrow>
                  Inr (df\<lparr>df_columns :=
                        AList.update target_var (map upper_if_str found) (df_columns df)\<rparr>)))"

subsection \<open>fill\_na\_df\<close>

text \<open>
  \<open>df2.loc[label, col]\<close>: a label that is not in the index of \<open>df2\<close> raises
  \<open>KeyError\<close>.
\<close>

definition loc :: "dataframe \<Rightarrow> nat \<Rightarrow> ustr \<Rightarrow> error + cell" where
  "loc df2 label col =
     (case map_of (df_columns df2) col of
        None \<Rightarrow> Inl KeyError
      | Some cells \<Rightarrow>
          (case map_of (zip (df_index df2) cells) label of
             None \<Rightarrow> Inl KeyError
           | Some v \<Rightarrow> Inr v))"

text \<open>
  \<open>df.apply(lambda row: ..., axis=1)\<close> for one pair of columns: the new cells of the
  target column, row by row, or the first exception.
\<close>

fun fill_rows :: "dataframe \<Rightarrow> ustr \<Rightarrow> (nat \<times> cell) list \<Rightarrow> error + cell list" where
  "fill_rows df2 filler_col [] = Inr []"
| "fill_rows df2 filler_col ((label, v) # rows) =
     (case (if notna v then Inr v else loc df2 label filler_col) of
        Inl e \<Rightarrow> Inl e
      | Inr w \<Rightarrow>
          (case fill_rows df2 filler_col rows of Inl e \<Rightarrow> Inl e | Inr ws \<Rightarrow> Inr (w # ws)))"

text \<open>
  The loop over the pairs of columns. \<open>df\<close> is changed in place, so the result is the
  exception raised, if any, and the state in which \<open>df\<close> is left.
\<close>

fun fill_pairs ::
  "dataframe \<Rightarrow> dataframe \<Rightarrow> (ustr \<times> ustr) list \<Rightarrow> error option \<times> dataframe" where
  "fill_pairs df df2 [] = (None, df)"
| "fill_pairs df df2 ((target_col, filler_col) # rest) =
     (case map_of (df_columns df) target_col of
        None \<Rightarrow> (Some ValueError, df)
      | Some cells \<Rightarrow>
          if map_of (df_columns df2) filler_col = None then (Some ValueError, df)
          else
            (case fill_rows df2 filler_col (zip (df_index df) cells) of
               Inl e \<Rightarrow> (Some e, df)
             | Inr filled \<Rightarrow>
                 fill_pairs
                   (df\<lparr>df_columns := AList.update target_col filled (df_columns df)\<rparr>)
                   df2 rest))"

definition fill_na_df ::
  "dataframe \<Rightarrow> dataframe \<Rightarrow> ustr list \<Rightarrow> ustr list option \<Rightarrow> error option \<times> dataframe" where
  "fill_na_df df df2 target_columns filler_columns =
     (let fillers = (case filler_columns of None \<Rightarrow> target_columns | Some cols \<Rightarrow> cols)
      in if length target_columns \<noteq> length fillers then (Some ValueError, df)
         else fill_pairs df df2 (zip target_columns fillers))"

section \<open>Evaluating the definitions\<close>

lemma placeholder_simps:
  "placeholder 0 = [80, 76, 65, 67, 69, 72, 79, 76, 68, 69, 82, 95, 48]"
  "placeholder (Suc 0) = [80, 76, 65, 67, 69, 72, 79, 76, 68, 69, 82, 95, 49]"
  "placeholder (Suc (Suc 0)) = [80, 76, 65, 67, 69, 72, 79, 76, 68, 69, 82, 95, 50]"
  "placeholder (Suc (Suc (Suc 0))) = [80, 76, 65, 67, 69, 72, 79, 76, 68, 69, 82, 95, 51]"
  by (simp_all add: placeholder_def u_def)

text \<open>The two loops of \<open>remove_accents\<close>, unrolled for the four default characters.\<close>

lemma remove_accents_lib_unfold:
  "remove_accents_lib str_lower normalize_nfkd default_protected input_str =
     py_replace (placeholder 3) [186] (py_replace (placeholder 2) [176]
       (py_replace (placeholder 1) [252] (py_replace (placeholder 0) [241]
         (encode_ascii_ignore (normalize_nfkd
            (py_replace [186] (placeholder 3) (py_replace [176] (placeholder 2)
               (py_replace [252] (placeholder 1) (py_replace [241] (placeholder 0)
                  (str_lower input_str))))))))))"
  by (simp add: remove_accents_lib_def default_protected_def numeral_3_eq_3 numeral_2_eq_2)

lemma remove_accents_unfold:
  "remove_accents input_str =
     py_replace (placeholder 3) [186] (py_replace (placeholder 2) [176]
       (py_replace (placeholder 1) [252] (py_replace (placeholder 0) [241]
         (encode_ascii_ignore (nfkd
            (py_replace [186] (placeholder 3) (py_replace [176] (placeholder 2)
               (py_replace [252] (placeholder 1) (py_replace [241] (placeholder 0)
                  (py_lower input_str))))))))))"
  by (simp only: remove_accents_def remove_accents_with_def remove_accents_lib_unfold)

lemmas remove_accents_eval =
  remove_accents_unfold placeholder_simps numeral_3_eq_3 numeral_2_eq_2
  py_replace_def py_lower_def lower_cp_def nfkd_def decompose_cp_def latin1_letters_def
  encode_ascii_ignore_def

lemmas preprocess_text_eval =
  remove_accents_eval preprocess_text_def known_abbreviations_def u_def sub_punctuation_def
  is_space_def py_split_def py_strip_def

lemmas regex_search_eval =
  regex_search_def boundary_at_def word_at_def literal_at_def is_word_def py_lower_def
  lower_cp_def u_def

section \<open>The extractor returns the earliest match\<close>

lemma earliest_loop_keep:
  "list_all (\<lambda>item. case regex_search (fst item) pt of None \<Rightarrow> True | Some m' \<Rightarrow> e \<le> m') cps
   \<Longrightarrow> earliest_loop cps pt (Some e) en = en"
  by (induction cps arbitrary: en) (auto split: option.splits)

lemma earliest_loop_winner:
  "j < length cps \<Longrightarrow> regex_search (fst (cps ! j)) pt = Some m
   \<Longrightarrow> list_all (\<lambda>item. case regex_search (fst item) pt of None \<Rightarrow> True | Some m' \<Rightarrow> m \<le> m') cps
   \<Longrightarrow> list_all (\<lambda>item. regex_search (fst item) pt \<noteq> Some m) (take j cps)
   \<Longrightarrow> (case em of None \<Rightarrow> True | Some e \<Rightarrow> m < e)
   \<Longrightarrow> earliest_loop cps pt em en = Some (snd (cps ! j))"
proof (induction cps arbitrary: j em en)
  case Nil
  then show ?case by simp
next
  case (Cons a cps)
  obtain regex full_name where a: "a = (regex, full_name)" by (cases a)
  show ?case
  proof (cases j)
    case 0
    with Cons.prems a
    have "earliest_loop (a # cps) pt em en = earliest_loop cps pt (Some m) (Some full_name)"
      by (auto split: option.splits)
    also have "\<dots> = Some full_name"
      using Cons.prems by (intro earliest_loop_keep) simp
    finally show ?thesis using 0 a by simp
  next
    case (Suc j')
    with Cons.prems have j': "j' < length cps" "regex_search (fst (cps ! j')) pt = Some m"
      "list_all (\<lambda>item. case regex_search (fst item) pt of None \<Rightarrow> True | Some m' \<Rightarrow> m \<le> m') cps"
      "list_all (\<lambda>item. regex_search (fst item) pt \<noteq> Some m) (take j' cps)"
      by simp_all
    from Cons.prems Suc a have ne: "regex_search regex pt \<noteq> Some m" by simp
    from Cons.prems a have le: "\<And>m'. regex_search regex pt = Some m' \<Longrightarrow> m \<le> m'" by simp
    show ?thesis
    proof (cases "regex_search regex pt")
      case None
      then show ?thesis using Cons.IH[OF j' Cons.prems(5)] a Suc by simp
    next
      case (Some m')
      with ne le have lt: "m < m'" by fastforce
      have "earliest_loop cps pt (Some m') (Some full_name) = Some (snd (cps ! j'))"
        using Cons.IH[OF j', of "Some m'"] lt by simp
      moreover have "earliest_loop cps pt em en = Some (snd (cps ! j'))"
        using Cons.IH[OF j' Cons.prems(5)] .
      ultimately show ?thesis using a Suc Some by simp
    qed
  qed
qed

text \<open>
  Claim C2. For every text and every collection of compiled patterns: when the
  pattern at position \<open>j\<close> of the collection has its earliest occurrence in the
  preprocessed text at offset \<open>m\<close>, no pattern of the collection occurs before \<open>m\<close>,
  and no pattern before position \<open>j\<close> has its earliest occurrence at \<open>m\<close>, then
  \<open>find_earliest_pattern\<close> returns the label of the pattern at \<open>j\<close>. The lengths of the
  matches play no part.
\<close>

theorem find_earliest_pattern_earliest:
  assumes "j < length compiled_patterns"
    and "regex_search (fst (compiled_patterns ! j)) (preprocess_text text ignore_prepositions)
           = Some m"
    and "\<forall>item \<in> set compiled_patterns. \<forall>m'.
           regex_search (fst item) (preprocess_text text ignore_prepositions) = Some m'
             \<longrightarrow> m \<le> m'"
    and "\<forall>item \<in> set (take j compiled_patterns).
           regex_search (fst item) (preprocess_text text ignore_prepositions) \<noteq> Some m"
  shows "find_earliest_pattern compiled_patterns ignore_prepositions (Str text)
           = Inr (Str (snd (compiled_patterns ! j)))"
proof -
  let ?pt = "preprocess_text text ignore_prepositions"
  have a: "list_all (\<lambda>item. case regex_search (fst item) ?pt of None \<Rightarrow> True | Some m' \<Rightarrow> m \<le> m')
             compiled_patterns"
    using assms(3) by (auto simp: list_all_iff split: option.splits)
  have b: "list_all (\<lambda>item. regex_search (fst item) ?pt \<noteq> Some m) (take j compiled_patterns)"
    using assms(4) by (simp add: list_all_iff)
  have "earliest_loop compiled_patterns ?pt None None = Some (snd (compiled_patterns ! j))"
    using earliest_loop_winner[OF assms(1,2) a b, of None None] by simp
  then show ?thesis by (simp add: find_earliest_pattern_def)
qed

text \<open>
  In the text \<open>a bc\<close> the pattern \<open>a\<close>, declared last, starts first and wins over
  the longer \<open>bc\<close>.
\<close>

theorem find_earliest_pattern_earliest_witness:
  "find_earliest_pattern [(u ''bc'', u ''BC''), (u ''a'', u ''A'')] None (Str (u ''a bc''))
     = Inr (Str (u ''A''))"
proof -
  have pt: "preprocess_text (u ''a bc'') None = u ''a bc''"
    by (simp add: preprocess_text_eval)
  have sa: "regex_search (u ''a'') (u ''a bc'') = Some 0"
    by (simp add: regex_search_eval)
  have sb: "regex_search (u ''bc'') (u ''a bc'') = Some 2"
    by (simp add: regex_search_eval)
  show ?thesis
    using find_earliest_pattern_earliest
      [of 1 "[(u ''bc'', u ''BC''), (u ''a'', u ''A'')]" "u ''a bc''" None 0]
    by (simp add: pt sa sb)
qed

section \<open>The dictionary expander\<close>

lemma map_of_register_values:
  "map_of (register_values key values d) name
     = (if name \<in> set (map py_lower values) then Some key else map_of d name)"
  by (induction "values" arbitrary: d) (auto simp: update_conv')

lemma distinct_register_values:
  "distinct (map fst d) \<Longrightarrow> distinct (map fst (register_values key values d))"
  by (induction "values" arbitrary: d) (auto simp: distinct_update)

lemma find_append_cases:
  "find P (xs @ ys) = (case find P xs of None \<Rightarrow> find P ys | Some x \<Rightarrow> Some x)"
  by (induction xs) auto

lemma map_of_register_keys:
  "map_of (register_keys input_dict d) name
     = (case find (\<lambda>(key, values). name \<in> set (map py_lower (key # values))) (rev input_dict) of
          None \<Rightarrow> map_of d name
        | Some entry \<Rightarrow> Some (fst entry))"
proof (induction input_dict arbitrary: d)
  case Nil
  then show ?case by simp
next
  case (Cons a input_dict)
  obtain key "values" where a: "a = (key, values)" by (cases a)
  show ?case
    by (simp add: a Cons.IH find_append_cases map_of_register_values update_conv' split: option.splits)
qed

lemma distinct_register_keys:
  "distinct (map fst d) \<Longrightarrow> distinct (map fst (register_keys input_dict d))"
  by (induction input_dict arbitrary: d) (auto simp: distinct_register_values distinct_update)

lemma distinct_fst_sort_key:
  "distinct (map fst xs) \<Longrightarrow> distinct (map fst (sort_key f xs))"
  by (simp add: distinct_map)

lemma map_of_sort_key:
  "distinct (map fst xs) \<Longrightarrow> map_of (sort_key f xs) = map_of xs"
  by (simp add: map_of_inject_set distinct_fst_sort_key)

lemma sorted_wrt_desc_length:
  "sorted_wrt (\<lambda>a b. length b \<le> length a) (map fst (sort_key (\<lambda>item. - int (length (fst item))) xs))"
proof -
  have "sorted (map (\<lambda>item. - int (length (fst item))) (sort_key (\<lambda>item. - int (length (fst item))) xs))"
    by (rule sorted_sort_key)
  then show ?thesis
    by (simp add: sorted_map sorted_wrt_map)
qed

lemma filter_length_sort_key:
  "filter (\<lambda>k. length k = n) (map fst (sort_key (\<lambda>item. - int (length (fst item))) xs))
     = filter (\<lambda>k. length k = n) (map fst xs)"
proof -
  have "filter (\<lambda>item. - int (length (fst item)) = - int n) (sort_key (\<lambda>item. - int (length (fst item))) xs)
        = filter (\<lambda>item. - int (length (fst item)) = - int n) xs"
    by (rule sort_key_stable)
  then have "map fst (filter (\<lambda>item. length (fst item) = n) (sort_key (\<lambda>item. - int (length (fst item))) xs))
        = map fst (filter (\<lambda>item. length (fst item) = n) xs)"
    by simp
  then show ?thesis by (simp add: filter_map comp_def)
qed

text \<open>
  Claim C7. For every mapping from canonical keys to aliases, the result of
  \<open>pair_values_to_key\<close> is a dictionary (its keys are distinct) that sends a name to the
  canonical key of the last entry of the input whose lower-cased key or one of whose
  lower-cased aliases is that name, and has no other key: a later registration of a
  name overwrites an earlier one and nothing is raised. With \<open>sort_keys\<close> the keys are
  in descending order of length, and the keys of any one length are in the order they
  have without \<open>sort_keys\<close>.
\<close>

theorem pair_values_to_key_last_write_wins:
  "map_of (pair_values_to_key input_dict sort_keys) name
     = map_option fst
         (find (\<lambda>(key, values). name \<in> set (map py_lower (key # values))) (rev input_dict))
   \<and> distinct (map fst (pair_values_to_key input_dict sort_keys))
   \<and> sorted_wrt (\<lambda>a b. length b \<le> length a) (map fst (pair_values_to_key input_dict True))
   \<and> filter (\<lambda>k. length k = n) (map fst (pair_values_to_key input_dict True))
       = filter (\<lambda>k. length k = n) (map fst (pair_values_to_key input_dict False))"
proof -
  have d: "distinct (map fst (register_keys input_dict []))"
    by (simp add: distinct_register_keys)
  have m: "map_of (register_keys input_dict []) name
     = map_option fst
         (find (\<lambda>(key, values). name \<in> set (map py_lower (key # values))) (rev input_dict))"
    by (simp add: map_of_register_keys split: option.splits)
  show ?thesis
    using d m
    by (simp add: pair_values_to_key_def Let_def map_of_sort_key distinct_fst_sort_key
        sorted_wrt_desc_length filter_length_sort_key)
qed

section \<open>The dataset-level extractor\<close>

text \<open>What \<open>find_earliest_pattern\<close> returns for a cell that is missing or a string.\<close>

definition found_cell :: "(ustr \<times> ustr) list \<Rightarrow> ustr list option \<Rightarrow> cell \<Rightarrow> cell" where
  "found_cell compiled_patterns ignore_prepositions c =
     (case c of
        Str s \<Rightarrow>
          (case earliest_loop compiled_patterns (preprocess_text s ignore_prepositions) None None of
             None \<Rightarrow> Missing
           | Some name \<Rightarrow> Str name)
      | Missing \<Rightarrow> Missing
      | Num n \<Rightarrow> Missing)"

lemma series_apply_no_num:
  "list_all (\<lambda>c. case c of Num n \<Rightarrow> False | _ \<Rightarrow> True) col
   \<Longrightarrow> series_apply (find_earliest_pattern cps ign) col = Inr (map (found_cell cps ign) col)"
proof (induction col)
  case Nil
  then show ?case by simp
next
  case (Cons c col)
  then have "find_earliest_pattern cps ign c = Inr (found_cell cps ign c)"
    by (cases c) (auto simp: find_earliest_pattern_def found_cell_def split: option.splits)
  with Cons show ?case by simp
qed

text \<open>
  Claim C8. In \<open>extract_and_store_patterns\<close>, over a source column all of whose cells
  are missing or strings: nothing is raised; a missing cell gives a missing cell,
  whatever the patterns are (\<open>find_earliest_pattern\<close> returns before it reads them);
  a cell for which \<open>find_earliest_pattern\<close> returns a label gives that label in upper
  case; and the upper-casing step leaves a value that is not a string as it is.
\<close>

theorem extract_missing_and_upper:
  assumes "map_of (df_columns df) base_var = Some base"
    and "\<forall>c \<in> set base. \<forall>n. c \<noteq> Num n"
  shows "(\<exists>found.
            extract_and_store_patterns df ps target_var base_var composed ignore_prepositions
              = Inr (df\<lparr>df_columns := AList.update target_var found (df_columns df)\<rparr>)
          \<and> length found = length base
          \<and> (\<forall>i < length base.
                (base ! i = Missing \<longrightarrow> found ! i = Missing)
              \<and> (\<forall>label.
                   find_earliest_pattern
                     (compile_patterns composed ignore_prepositions (pattern_to_full_name ps) [])
                     ignore_prepositions (base ! i) = Inr (Str label)
                   \<longrightarrow> found ! i = Str (py_upper label))))
       \<and> find_earliest_pattern any_patterns ignore_prepositions Missing = Inr Missing
       \<and> upper_if_str Missing = Missing
       \<and> upper_if_str (Num n) = Num n"
proof -
  let ?cps = "compile_patterns composed ignore_prepositions (pattern_to_full_name ps) []"
  let ?found = "map upper_if_str (map (found_cell ?cps ignore_prepositions) base)"
  have ok: "list_all (\<lambda>c. case c of Num n \<Rightarrow> False | _ \<Rightarrow> True) base"
    using assms(2) by (auto simp: list_all_iff split: cell.splits)
  have run: "extract_and_store_patterns df ps target_var base_var composed ignore_prepositions
      = Inr (df\<lparr>df_columns := AList.update target_var ?found (df_columns df)\<rparr>)"
    by (simp add: extract_and_store_patterns_def assms(1) series_apply_no_num[OF ok])
  have rows: "\<forall>i < length base.
       (base ! i = Missing \<longrightarrow> ?found ! i = Missing)
     \<and> (\<forall>label. find_earliest_pattern ?cps ignore_prepositions (base ! i) = Inr (Str label)
           \<longrightarrow> ?found ! i = Str (py_upper label))"
  proof (intro allI impI conjI)
    fix i assume "i < length base" "base ! i = Missing"
    then show "?found ! i = Missing" by (simp add: found_cell_def upper_if_str_def)
  next
    fix i label
    assume i: "i < length base"
      and f: "find_earliest_pattern ?cps ignore_prepositions (base ! i) = Inr (Str label)"
    from i assms(2) have "\<And>n. base ! i \<noteq> Num n" by (metis nth_mem)
    then have "find_earliest_pattern ?cps ignore_prepositions (base ! i)
        = Inr (found_cell ?cps ignore_prepositions (base ! i))"
      by (cases "base ! i") (auto simp: find_earliest_pattern_def found_cell_def split: option.splits)
    with f have "found_cell ?cps ignore_prepositions (base ! i) = Str label" by simp
    with i show "?found ! i = Str (py_upper label)" by (simp add: upper_if_str_def)
  qed
  have "length ?found = length base" by simp
  with run rows have "\<exists>found.
            extract_and_store_patterns df ps target_var base_var composed ignore_prepositions
              = Inr (df\<lparr>df_columns := AList.update target_var found (df_columns df)\<rparr>)
          \<and> length found = length base
          \<and> (\<forall>i < length base.
                (base ! i = Missing \<longrightarrow> found ! i = Missing)
              \<and> (\<forall>label.
                   find_earliest_pattern ?cps ignore_prepositions (base ! i) = Inr (Str label)
                   \<longrightarrow> found ! i = Str (py_upper label)))"
    by blast
  then show ?thesis
    by (simp add: find_earliest_pattern_def upper_if_str_def)
qed

text \<open>
  A column with a missing cell and the cell \<open>a bc\<close>, and the one pattern \<open>a\<close>: the
  target column holds a missing cell and \<open>A\<close>.
\<close>

theorem extract_missing_and_upper_witness:
  "extract_and_store_patterns
     \<lparr>df_index = [0, 1], df_columns = [(u ''B'', [Missing, Str (u ''a bc'')])]\<rparr>
     (PatternList [u ''a'']) (u ''T'') (u ''B'') False None
   = Inr \<lparr>df_index = [0, 1],
          df_columns = [(u ''B'', [Missing, Str (u ''a bc'')]), (u ''T'', [Missing, Str (u ''A'')])]\<rparr>"
proof -
  let ?df = "\<lparr>df_index = [0, 1], df_columns = [(u ''B'', [Missing, Str (u ''a bc'')])]\<rparr>"
  let ?base = "[Missing, Str (u ''a bc'')]"
  have col: "map_of (df_columns ?df) (u ''B'') = Some ?base" by simp
  have str: "\<forall>c \<in> set ?base. \<forall>n. c \<noteq> Num n" by simp
  have pa: "preprocess_text [97] None = [97]"
    by (simp add: preprocess_text_eval)
  have pt: "preprocess_text (u ''a bc'') None = u ''a bc''"
    by (simp add: preprocess_text_eval)
  have sa: "regex_search (u ''a'') (u ''a bc'') = Some 0"
    by (simp add: regex_search_eval)
  have cps: "compile_patterns False None (pattern_to_full_name (PatternList [u ''a''])) []
      = [(u ''a'', u ''a'')]"
    by (simp add: pattern_to_full_name_def u_def py_lower_def lower_cp_def pa Let_def)
  have label: "find_earliest_pattern [(u ''a'', u ''a'')] None (Str (u ''a bc'')) = Inr (Str (u ''a''))"
    by (simp add: find_earliest_pattern_def pt sa)
  from extract_missing_and_upper[OF col str, of "PatternList [u ''a'']" "u ''T''" False None]
  obtain found where run: "extract_and_store_patterns ?df (PatternList [u ''a'']) (u ''T'') (u ''B'') False None
        = Inr (?df\<lparr>df_columns := AList.update (u ''T'') found (df_columns ?df)\<rparr>)"
    and len: "length found = length ?base"
    and rows: "\<forall>i < length ?base.
                (?base ! i = Missing \<longrightarrow> found ! i = Missing)
              \<and> (\<forall>label.
                   find_earliest_pattern
                     (compile_patterns False None (pattern_to_full_name (PatternList [u ''a''])) [])
                     None (?base ! i) = Inr (Str label)
                   \<longrightarrow> found ! i = Str (py_upper label))"
    by blast
  from rows have "found ! 0 = Missing" by simp
  moreover from rows label cps have "found ! 1 = Str (py_upper (u ''a''))" by simp
  then have "found ! 1 = Str (u ''A'')" by (simp add: py_upper_def upper_cp_def u_def)
  ultimately have "found = [Missing, Str (u ''A'')]"
    using len by (simp add: list_eq_iff_nth_eq less_Suc_eq numeral_2_eq_2)
  with run show ?thesis by (simp add: u_def)
qed

section \<open>Validation errors\<close>

lemma fill_pairs_append:
  "fill_pairs df df2 (xs @ ys)
     = (case fill_pairs df df2 xs of
          (None, d) \<Rightarrow> fill_pairs d df2 ys
        | (Some e, d) \<Rightarrow> (Some e, d))"
proof (induction xs arbitrary: df)
  case Nil
  then show ?case by simp
next
  case (Cons a xs)
  obtain target_col filler_col where a: "a = (target_col, filler_col)" by (cases a)
  show ?case
    by (auto simp: a Cons.IH split: option.splits sum.splits)
qed

text \<open>The loop never adds or removes a column of \<open>df\<close>.\<close>

lemma fill_pairs_columns:
  "(map_of (df_columns (snd (fill_pairs df df2 xs))) t = None)
     = (map_of (df_columns df) t = None)"
proof (induction xs arbitrary: df)
  case Nil
  then show ?case by simp
next
  case (Cons a xs)
  obtain target_col filler_col where a: "a = (target_col, filler_col)" by (cases a)
  show ?case
    by (auto simp: a Cons.IH update_conv' split: option.splits sum.splits)
qed

lemma fill_pairs_absent:
  assumes "k < length pairs"
    and "map_of (df_columns df) (fst (pairs ! k)) = None
         \<or> map_of (df_columns df2) (snd (pairs ! k)) = None"
  shows "fst (fill_pairs df df2 pairs) \<noteq> None
         \<and> snd (fill_pairs df df2 pairs) = snd (fill_pairs df df2 (take k pairs))"
proof -
  obtain target_col filler_col where p: "pairs ! k = (target_col, filler_col)"
    by (cases "pairs ! k")
  have split: "pairs = take k pairs @ (target_col, filler_col) # drop (Suc k) pairs"
    using assms(1) p by (metis id_take_nth_drop)
  obtain r d where first: "fill_pairs df df2 (take k pairs) = (r, d)"
    by (cases "fill_pairs df df2 (take k pairs)")
  have cols: "(map_of (df_columns d) target_col = None) = (map_of (df_columns df) target_col = None)"
    using fill_pairs_columns[of df df2 "take k pairs" target_col] first by simp
  have stop: "fill_pairs d df2 ((target_col, filler_col) # drop (Suc k) pairs) = (Some ValueError, d)"
    using assms(2) p cols by (auto split: option.splits)
  have "fill_pairs df df2 pairs
      = (case fill_pairs df df2 (take k pairs) of
          (None, d) \<Rightarrow> fill_pairs d df2 ((target_col, filler_col) # drop (Suc k) pairs)
        | (Some e, d) \<Rightarrow> (Some e, d))"
    using fill_pairs_append[of df df2 "take k pairs" "(target_col, filler_col) # drop (Suc k) pairs"]
      split by simp
  then show ?thesis
    using first stop by (cases r) simp_all
qed

text \<open>
  Claim C9, as amended. \<open>get_unique_names\<close> raises \<open>KeyError\<close> when a requested column is
  absent, whatever the rows hold. \<open>fill_na_df\<close> raises \<open>ValueError\<close> and leaves the
  dataframe as it was when the two lists of columns differ in length. When the lists
  have the same length and a column of the pair at position \<open>k\<close> is absent from its
  dataframe, \<open>fill_na_df\<close> raises an error, and it leaves the dataframe as the call on
  the first \<open>k\<close> pairs leaves it: that pair and the later ones are not processed, the
  earlier ones are. Without \<open>filler_columns\<close> the target columns are the filler columns.
\<close>

theorem validation_errors:
  "(map_of (df_columns df) target_var = None
      \<or> (\<exists>t. target_var2 = Some t \<and> map_of (df_columns df) t = None)
    \<longrightarrow> get_unique_names df target_var target_var2 = Inl KeyError)
   \<and> (length target_columns \<noteq> length fillers
    \<longrightarrow> fill_na_df df df2 target_columns (Some fillers) = (Some ValueError, df))
   \<and> (length target_columns = length fillers \<and> k < length target_columns
       \<and> (map_of (df_columns df) (target_columns ! k) = None
          \<or> map_of (df_columns df2) (fillers ! k) = None)
    \<longrightarrow> fst (fill_na_df df df2 target_columns (Some fillers)) \<noteq> None
        \<and> snd (fill_na_df df df2 target_columns (Some fillers))
            = snd (fill_na_df df df2 (take k target_columns) (Some (take k fillers))))
   \<and> fill_na_df df df2 target_columns None
       = fill_na_df df df2 target_columns (Some target_columns)"
proof (intro conjI impI)
  assume "map_of (df_columns df) target_var = None
      \<or> (\<exists>t. target_var2 = Some t \<and> map_of (df_columns df) t = None)"
  then show "get_unique_names df target_var target_var2 = Inl KeyError"
    by (auto simp: get_unique_names_def split: option.splits)
next
  assume "length target_columns \<noteq> length fillers"
  then show "fill_na_df df df2 target_columns (Some fillers) = (Some ValueError, df)"
    by (simp add: fill_na_df_def)
next
  assume a: "length target_columns = length fillers \<and> k < length target_columns
       \<and> (map_of (df_columns df) (target_columns ! k) = None
          \<or> map_of (df_columns df2) (fillers ! k) = None)"
  then have k: "k < length (zip target_columns fillers)" by simp
  from a have abs: "map_of (df_columns df) (fst (zip target_columns fillers ! k)) = None
         \<or> map_of (df_columns df2) (snd (zip target_columns fillers ! k)) = None"
    by simp
  from a have len: "length (take k target_columns) = length (take k fillers)" by simp
  have "fst (fill_pairs df df2 (zip target_columns fillers)) \<noteq> None
      \<and> snd (fill_pairs df df2 (zip target_columns fillers))
          = snd (fill_pairs df df2 (take k (zip target_columns fillers)))"
    by (rule fill_pairs_absent[OF k abs])
  then show "fst (fill_na_df df df2 target_columns (Some fillers)) \<noteq> None"
    and "snd (fill_na_df df df2 target_columns (Some fillers))
            = snd (fill_na_df df df2 (take k target_columns) (Some (take k fillers)))"
    using a by (simp_all add: fill_na_df_def take_zip)
next
  show "fill_na_df df df2 target_columns None
      = fill_na_df df df2 target_columns (Some target_columns)"
    by (simp add: fill_na_df_def)
qed

text \<open>
  A dataframe with the one column \<open>a\<close>: the absent column \<open>zz\<close>, one target column
  against no filler column, and the pairs \<open>a\<close>, \<open>zz\<close>.
\<close>

theorem validation_errors_witness:
  "get_unique_names \<lparr>df_index = [0], df_columns = [(u ''a'', [Missing])]\<rparr> (u ''zz'') None
     = Inl KeyError
   \<and> fill_na_df \<lparr>df_index = [0], df_columns = [(u ''a'', [Missing])]\<rparr>
        \<lparr>df_index = [0], df_columns = [(u ''a'', [Num 5])]\<rparr> [u ''a''] (Some [])
     = (Some ValueError, \<lparr>df_index = [0], df_columns = [(u ''a'', [Missing])]\<rparr>)
   \<and> snd (fill_na_df \<lparr>df_index = [0], df_columns = [(u ''a'', [Missing])]\<rparr>
        \<lparr>df_index = [0], df_columns = [(u ''a'', [Num 5])]\<rparr> [u ''a'', u ''zz'']
        (Some [u ''a'', u ''zz'']))
     = snd (fill_na_df \<lparr>df_index = [0], df_columns = [(u ''a'', [Missing])]\<rparr>
        \<lparr>df_index = [0], df_columns = [(u ''a'', [Num 5])]\<rparr> [u ''a''] (Some [u ''a'']))"
  using validation_errors
    [of "\<lparr>df_index = [0], df_columns = [(u ''a'', [Missing])]\<rparr>" "u ''zz''" None
      "[u ''a'']" "[]" "\<lparr>df_index = [0], df_columns = [(u ''a'', [Num 5])]\<rparr>" 0]
    validation_errors
    [of "\<lparr>df_index = [0], df_columns = [(u ''a'', [Missing])]\<rparr>" "u ''zz''" None
      "[u ''a'', u ''zz'']" "[u ''a'', u ''zz'']"
      "\<lparr>df_index = [0], df_columns = [(u ''a'', [Num 5])]\<rparr>" 1]
  by (simp add: u_def)

text \<open>
  Claim C9 as stated fails: with the target columns \<open>a\<close> and \<open>zz\<close>, of which \<open>zz\<close> is
  absent, \<open>fill_na_df\<close> raises \<open>ValueError\<close> after it has filled the missing cell of
  column \<open>a\<close> with \<open>5\<close>.
\<close>

theorem fill_na_df_rows_processed_counterexample:
  "fill_na_df \<lparr>df_index = [0], df_columns = [(u ''a'', [Missing])]\<rparr>
     \<lparr>df_index = [0], df_columns = [(u ''a'', [Num 5])]\<rparr> [u ''a'', u ''zz''] None
   = (Some ValueError, \<lparr>df_index = [0], df_columns = [(u ''a'', [Num 5])]\<rparr>)"
  by (simp add: fill_na_df_def u_def loc_def notna_def)

section \<open>The unique names of one or two columns\<close>

lemma set_column_names:
  "set (column_names col) = py_lower ` astype_str ` {c \<in> set col. notna c}"
  by (auto simp: column_names_def pd_unique_def)

lemma sorted_wrt_distinct:
  "sorted_wrt P xs \<Longrightarrow> distinct xs \<Longrightarrow> sorted_wrt (\<lambda>a b. P a b \<and> a \<noteq> b) xs"
  by (induction xs) auto

lemma sort_names_sorted:
  "set (sort_names names) = set names
   \<and> distinct (sort_names names)
   \<and> sorted_wrt (\<lambda>a b. length b < length a \<or> (length a = length b \<and> a < b)) (sort_names names)"
proof -
  let ?key = "\<lambda>s::ustr. (- int (length s), s)"
  have "sorted (map ?key (sort_names names))"
    unfolding sort_names_def by (rule sorted_sort_key)
  then have le: "sorted_wrt (\<lambda>a b. ?key a \<le> ?key b) (sort_names names)"
    by (simp add: sorted_map)
  have d: "distinct (sort_names names)"
    by (simp add: sort_names_def)
  have "sorted_wrt (\<lambda>a b. ?key a \<le> ?key b \<and> a \<noteq> b) (sort_names names)"
    by (rule sorted_wrt_distinct[OF le d])
  then have "sorted_wrt (\<lambda>a b. length b < length a \<or> (length a = length b \<and> a < b))
      (sort_names names)"
    by (rule sorted_wrt_mono_rel[rotated]) auto
  then show ?thesis using d by (simp add: sort_names_def)
qed

lemma get_unique_names_sorted:
  assumes "map_of (df_columns df) target_var = Some col1"
    and "target_var2 = None \<and> col2 = []
         \<or> (\<exists>t. target_var2 = Some t \<and> t \<noteq> [] \<and> map_of (df_columns df) t = Some col2)"
  shows "\<exists>names. get_unique_names df target_var target_var2 = Inr names
     \<and> set names = py_lower ` astype_str ` {c \<in> set col1 \<union> set col2. notna c}
     \<and> distinct names
     \<and> sorted_wrt (\<lambda>a b. length b < length a \<or> (length a = length b \<and> a < b)) names"
proof -
  have "get_unique_names df target_var target_var2
      = Inr (sort_names (column_names col1 @ column_names col2))"
    using assms by (auto simp: get_unique_names_def column_names_def pd_unique_def)
  moreover have "set (column_names col1 @ column_names col2)
      = py_lower ` astype_str ` {c \<in> set col1 \<union> set col2. notna c}"
    by (auto simp: set_column_names)
  ultimately show ?thesis
    using sort_names_sorted[of "column_names col1 @ column_names col2"] by auto
qed

text \<open>
  Claim C10 fails on one input: a second column that exists and is named by the empty
  string passes the check of line 27 (\<open>target_var2 is not None\<close>) and fails the test of
  line 34 (\<open>if target_var2:\<close>), so its values are left out.
\<close>

theorem get_unique_names_empty_name:
  "get_unique_names
     \<lparr>df_index = [0], df_columns = [(u ''a'', [Str (u ''x'')]), (u '''', [Str (u ''y'')])]\<rparr>
     (u ''a'') (Some (u '''')) = Inr [u ''x'']"
  by (simp add: get_unique_names_def u_def sort_names_def column_names_def pd_unique_def
      notna_def astype_str_def py_lower_def lower_cp_def)

section \<open>The spelling corrector\<close>

subsection \<open>Replacing in a string\<close>

lemma starts_with_append: "starts_with (p @ rest) p"
  by (induction p) auto

lemma replace_ne_skip:
  "old \<noteq> [] \<Longrightarrow> hd old \<notin> set b \<Longrightarrow> replace_ne old new (b @ rest) = b @ replace_ne old new rest"
proof (induction b)
  case Nil
  then show ?case by simp
next
  case (Cons a b)
  then obtain p ps where "old = p # ps" by (cases old) auto
  with Cons show ?case by auto
qed

lemma replace_ne_hit:
  "old \<noteq> [] \<Longrightarrow> replace_ne old new (old @ rest) = new @ replace_ne old new rest"
proof -
  assume "old \<noteq> []"
  then obtain p ps where old: "old = p # ps" by (cases old) auto
  have "starts_with (old @ rest) old" by (rule starts_with_append)
  then show ?thesis using old by simp
qed

subsection \<open>The tokens and the phrase of a window\<close>

text \<open>
  A token is not empty, holds no space, and holds a period only when it is the
  period alone.
\<close>

definition wf_token :: "ustr \<Rightarrow> bool" where
  "wf_token t = (t \<noteq> [] \<and> 32 \<notin> set t \<and> (t = [46] \<or> 46 \<notin> set t))"

lemma tok_char_not_space_period: "\<not> tok_char 32" "\<not> tok_char 46"
  by (simp_all add: tok_char_def is_word_def)

lemma wf_token_run:
  assumes "tok_char c"
  shows "wf_token (c # takeWhile tok_char cs)"
proof -
  have "\<forall>x \<in> set (c # takeWhile tok_char cs). tok_char x"
    using assms by (auto dest: set_takeWhileD)
  then have "32 \<notin> set (c # takeWhile tok_char cs)" "46 \<notin> set (c # takeWhile tok_char cs)"
    using tok_char_not_space_period by blast+
  then show ?thesis by (simp add: wf_token_def)
qed

lemma wf_tokens_from: "list_all wf_token (tokens_from prev_word s)"
proof (induction prev_word s rule: tokens_from.induct)
  case (1 prev_word)
  then show ?case by simp
next
  case (2 prev_word c cs)
  have "wf_token [46]" by (simp add: wf_token_def)
  with 2 show ?case
    by (auto simp: wf_token_run)
qed

lemma wf_tokenize: "list_all wf_token (tokenize s)"
  by (simp add: tokenize_def wf_tokens_from)

text \<open>
  The phrase of a window, written out: the tokens in order, with a space before every
  token after the first except before a period.
\<close>

fun glue :: "ustr list \<Rightarrow> ustr" where
  "glue [] = []"
| "glue [w] = w"
| "glue (w # w' # ws) = w @ (if w' = [46] then [] else [32]) @ glue (w' # ws)"

lemma py_join_Cons:
  "py_join sep (x # xs) = x @ (if xs = [] then [] else sep @ py_join sep xs)"
  by (cases xs) auto

lemma glue_Cons_head:
  "glue (x # xs) = x @ (if xs = [] then [] else (if hd xs = [46] then [] else [32]) @ glue xs)"
  by (cases xs) auto

lemma replace_join_glue:
  "list_all wf_token ws \<Longrightarrow> replace_ne [32, 46] [46] (py_join [32] ws) = glue ws"
proof (induction ws rule: glue.induct)
  case 1
  then show ?case by simp
next
  case (2 w)
  then have "32 \<notin> set w" by (simp add: wf_token_def)
  then have "replace_ne [32, 46] [46] (w @ []) = w @ replace_ne [32, 46] [46] []"
    by (intro replace_ne_skip) simp_all
  then show ?case by simp
next
  case (3 w w' ws)
  then have w: "32 \<notin> set w" and w': "wf_token w'" and rest: "list_all wf_token (w' # ws)"
    by (simp add: wf_token_def, simp, simp)
  let ?J = "py_join [32] (w' # ws)"
  have IH: "replace_ne [32, 46] [46] ?J = glue (w' # ws)"
    using 3 rest by simp
  obtain K where J: "?J = w' @ K" by (simp add: py_join_Cons)
  have skip: "replace_ne [32, 46] [46] (w @ 32 # ?J) = w @ replace_ne [32, 46] [46] (32 # ?J)"
    using w by (intro replace_ne_skip) simp_all
  show ?case
  proof (cases "w' = [46]")
    case True
    with J have J': "?J = 46 # K" by simp
    have "replace_ne [32, 46] [46] (32 # ?J) = 46 # replace_ne [32, 46] [46] K"
      by (simp add: J')
    moreover have "replace_ne [32, 46] [46] ?J = 46 # replace_ne [32, 46] [46] K"
      by (simp add: J')
    ultimately show ?thesis using skip IH True by simp
  next
    case False
    with w' obtain x xs where x: "w' = x # xs" "x \<noteq> 46"
      by (cases w') (auto simp: wf_token_def)
    have "replace_ne [32, 46] [46] (32 # ?J) = 32 # replace_ne [32, 46] [46] ?J"
      using J x by simp
    then show ?thesis using skip IH False by simp
  qed
qed

lemma phrase_to_check_glue:
  "list_all wf_token words \<Longrightarrow> phrase_to_check words i n = glue (take n (drop i words))"
proof -
  assume "list_all wf_token words"
  then have "list_all wf_token (take n (drop i words))"
    by (auto simp: list_all_iff dest: in_set_takeD in_set_dropD)
  then show ?thesis
    by (simp add: phrase_to_check_def py_slice_def py_replace_def replace_join_glue)
qed

lemma glue_snoc:
  "ws \<noteq> [] \<Longrightarrow> glue (ws @ [w]) = glue ws @ (if w = [46] then [] else [32]) @ w"
  by (induction ws rule: glue.induct) auto

lemma length_glue_take_Suc:
  assumes "list_all wf_token W" and "n < length W"
  shows "length (glue (take n W)) < length (glue (take (Suc n) W))"
proof -
  have w: "W ! n \<noteq> []"
    using assms by (simp add: list_all_length wf_token_def)
  have t: "take (Suc n) W = take n W @ [W ! n]"
    using assms(2) by (rule take_Suc_conv_app_nth)
  show ?thesis
  proof (cases "take n W = []")
    case True
    have "glue (take n W) = []" by (simp only: True glue.simps)
    moreover have "glue (take (Suc n) W) = W ! n"
      by (simp only: t True append_Nil glue.simps)
    ultimately show ?thesis using w by simp
  next
    case False
    then have "glue (take (Suc n) W) = glue (take n W) @ (if W ! n = [46] then [] else [32]) @ W ! n"
      using t by (simp add: glue_snoc)
    then show ?thesis using w by simp
  qed
qed

lemma length_glue_take_mono:
  assumes "list_all wf_token W" and "n < m" and "m \<le> length W"
  shows "length (glue (take n W)) < length (glue (take m W))"
  using assms(2,3)
proof (induction m)
  case 0
  then show ?case by simp
next
  case (Suc m)
  then have step: "length (glue (take m W)) < length (glue (take (Suc m) W))"
    using assms(1) by (intro length_glue_take_Suc) simp_all
  show ?case
  proof (cases "n = m")
    case True
    then show ?thesis using step by simp
  next
    case False
    with Suc have "length (glue (take n W)) < length (glue (take m W))" by simp
    then show ?thesis using step by simp
  qed
qed

subsection \<open>The longest key wins\<close>

lemma key_matches_glue:
  assumes "list_all wf_token words"
  shows "key_matches words i k
     = (i + length (tokenize k) \<le> length words
        \<and> glue (take (length (tokenize k)) (drop i words)) = k)"
  using assms by (auto simp: key_matches_def phrase_to_check_glue)

text \<open>Of two keys that match at one position, the one of more tokens is the longer string.\<close>

lemma matching_keys_length:
  assumes "list_all wf_token words" and "key_matches words i a" and "key_matches words i b"
    and "length (tokenize a) < length (tokenize b)"
  shows "length a < length b"
proof -
  let ?W = "drop i words"
  have W: "list_all wf_token ?W"
    using assms(1) by (auto simp: list_all_iff dest: in_set_dropD)
  from assms(1,2) have a: "glue (take (length (tokenize a)) ?W) = a"
    by (simp add: key_matches_glue)
  from assms(1,3) have b: "length (tokenize b) \<le> length ?W"
    "glue (take (length (tokenize b)) ?W) = b"
    by (auto simp: key_matches_glue)
  have "length (glue (take (length (tokenize a)) ?W)) < length (glue (take (length (tokenize b)) ?W))"
    by (rule length_glue_take_mono[OF W assms(4) b(1)])
  then show ?thesis using a b(2) by simp
qed

lemma matching_keys_equal:
  assumes "list_all wf_token words" and "key_matches words i a" and "key_matches words i b"
    and "length (tokenize a) = length (tokenize b)"
  shows "a = b"
  using assms by (simp add: key_matches_glue)

lemma matching_keys_tokens_le:
  assumes "list_all wf_token words" and "key_matches words i a" and "key_matches words i b"
    and "length a \<le> length b"
  shows "length (tokenize a) \<le> length (tokenize b)"
proof (rule ccontr)
  assume "\<not> length (tokenize a) \<le> length (tokenize b)"
  then have "length (tokenize b) < length (tokenize a)" by simp
  then have "length b < length a"
    by (rule matching_keys_length[OF assms(1,3,2)])
  with assms(4) show False by simp
qed

text \<open>The \<open>for\<close> loop returns the first entry whose key matches.\<close>

lemma find_match_find:
  "find_match ms words i
     = map_option (\<lambda>item. (length (tokenize (fst item)), snd item))
         (find (\<lambda>item. key_matches words i (fst item)) ms)"
  by (induction ms) auto

lemma find_first_sorted:
  "sorted (map f xs) \<Longrightarrow> find P xs = Some x \<Longrightarrow> y \<in> set xs \<Longrightarrow> P y \<Longrightarrow> f x \<le> f y"
  by (induction xs) (auto split: if_splits)

lemma find_Some_mem: "find P xs = Some x \<Longrightarrow> x \<in> set xs \<and> P x"
  by (induction xs) (auto split: if_splits)

lemma find_None_none: "find P xs = None \<Longrightarrow> y \<in> set xs \<Longrightarrow> \<not> P y"
  by (induction xs) (auto split: if_splits)

lemma find_match_longest:
  assumes "list_all wf_token words"
    and "(b, cb) \<in> set misspellings" and "key_matches words i b"
  shows "\<exists>k c. (k, c) \<in> set misspellings \<and> key_matches words i k
     \<and> find_match (sort_misspellings misspellings) words i = Some (length (tokenize k), c)
     \<and> (\<forall>item \<in> set misspellings.
           key_matches words i (fst item) \<longrightarrow> length (tokenize (fst item)) \<le> length (tokenize k))"
proof -
  let ?P = "\<lambda>item. key_matches words i (fst item)"
  let ?f = "\<lambda>item::ustr \<times> ustr. - int (length (fst item))"
  let ?S = "sort_misspellings misspellings"
  have S: "set ?S = set misspellings" "sorted (map ?f ?S)"
    by (simp_all add: sort_misspellings_def)
  obtain x where x: "find ?P ?S = Some x"
  proof (cases "find ?P ?S")
    case None
    moreover have "(b, cb) \<in> set ?S" using assms(2) S(1) by simp
    ultimately have "\<not> ?P (b, cb)" by (rule find_None_none)
    with assms(3) show ?thesis by simp
  next
    case (Some x)
    then show ?thesis by (rule that)
  qed
  obtain k c where kc: "x = (k, c)" by (cases x)
  from x kc have mem: "(k, c) \<in> set misspellings" and match: "key_matches words i k"
    using find_Some_mem[of ?P ?S x] S(1) by auto
  have max: "\<forall>item \<in> set misspellings.
           key_matches words i (fst item) \<longrightarrow> length (tokenize (fst item)) \<le> length (tokenize k)"
  proof (intro ballI impI)
    fix item assume item: "item \<in> set misspellings" "key_matches words i (fst item)"
    then have "?f x \<le> ?f item"
      using find_first_sorted[OF S(2) x, of item] S(1) by simp
    then have "length (fst item) \<le> length k" using kc by simp
    then show "length (tokenize (fst item)) \<le> length (tokenize k)"
      by (rule matching_keys_tokens_le[OF assms(1) item(2) match])
  qed
  have "find_match ?S words i = Some (length (tokenize k), c)"
    using x kc by (simp add: find_match_find)
  with mem match max show ?thesis by blast
qed

lemmas tokenize_eval = tokenize_def tok_char_def is_word_def u_def

subsection \<open>The empty key\<close>

text \<open>A run that is at a position where the first matching key has no token never ends.\<close>

lemma correct_loop_stuck:
  assumes "correct_loop ms words i corrected = Some y"
  shows "\<not> (i < length words \<and> (\<exists>c. find_match ms words i = Some (0, c)))"
proof (rule correct_loop.raw_induct
    [where P = "\<lambda>ms words i corrected y.
       \<not> (i < length words \<and> (\<exists>c. find_match ms words i = Some (0, c)))", OF _ assms])
  fix f :: "(ustr \<times> ustr) list \<Rightarrow> ustr list \<Rightarrow> nat \<Rightarrow> ustr list \<Rightarrow> ustr list option"
    and ms words i corrected y
  assume IH: "\<And>ms words i corrected y. f ms words i corrected = Some y
      \<Longrightarrow> \<not> (i < length words \<and> (\<exists>c. find_match ms words i = Some (0, c)))"
    and body: "(if i < length words
      then case find_match ms words i of
           None \<Rightarrow> f ms words (i + 1) (corrected @ [words ! i])
         | Some (misspelled_len, correct) \<Rightarrow>
             f ms words (i + misspelled_len) (corrected @ [correct])
      else Some corrected) = Some y"
  show "\<not> (i < length words \<and> (\<exists>c. find_match ms words i = Some (0, c)))"
  proof
    assume a: "i < length words \<and> (\<exists>c. find_match ms words i = Some (0, c))"
    then obtain c where c: "find_match ms words i = Some (0, c)" by blast
    with a body have "f ms words i (corrected @ [c]) = Some y" by simp
    from IH[OF this] a show False by simp
  qed
qed

text \<open>Without the empty key the loop ends: every matching key has a token.\<close>

lemma find_match_positive:
  assumes "find_match ms words i = Some (n, c)" and "[] \<notin> fst ` set ms"
  shows "0 < n \<and> i + n \<le> length words"
proof -
  from assms(1) obtain item where item: "item \<in> set ms" "key_matches words i (fst item)"
    "n = length (tokenize (fst item))"
    using find_Some_mem[of "\<lambda>item. key_matches words i (fst item)" ms]
    by (auto simp: find_match_find)
  have "n \<noteq> 0"
  proof
    assume "n = 0"
    with item(2,3) have "fst item = []"
      by (simp add: key_matches_def phrase_to_check_def py_slice_def py_replace_def)
    with item(1) assms(2) show False by force
  qed
  with item(2,3) show ?thesis by (simp add: key_matches_def)
qed

lemma correct_loop_terminates:
  assumes "[] \<notin> fst ` set ms"
  shows "\<exists>y. correct_loop ms words i corrected = Some y"
proof (induction "length words - i" arbitrary: i corrected rule: less_induct)
  case less
  show ?case
  proof (cases "i < length words")
    case False
    then show ?thesis by (subst correct_loop.simps) simp
  next
    case True
    show ?thesis
    proof (cases "find_match ms words i")
      case None
      have "\<exists>y. correct_loop ms words (i + 1) (corrected @ [words ! i]) = Some y"
        using True by (intro less) simp
      then show ?thesis using True None by (subst correct_loop.simps) simp
    next
      case (Some r)
      obtain n c where r: "r = (n, c)" by (cases r)
      with Some assms have n: "0 < n" using find_match_positive by blast
      have "\<exists>y. correct_loop ms words (i + n) (corrected @ [c]) = Some y"
        using True n by (intro less) simp
      then show ?thesis using True Some r by (subst correct_loop.simps) simp
    qed
  qed
qed

lemma correct_spelling_terminates:
  assumes "[] \<notin> fst ` set misspellings"
  shows "\<exists>y. correct_spelling street_name misspellings = Some y"
proof -
  have "[] \<notin> fst ` set (sort_misspellings misspellings)"
    using assms by (simp add: sort_misspellings_def)
  from correct_loop_terminates[OF this]
  show ?thesis by (auto simp: correct_spelling_def)
qed

text \<open>
  Claim C3 fails on the code: with the empty string as a key, the call
  \<open>correct_spelling("a", {"": "x"})\<close> never returns. At the token \<open>a\<close> the empty key
  matches, the correction is appended and the cursor stays where it is.
\<close>

theorem correct_spelling_empty_key_diverges:
  "correct_spelling (u ''a'') [([], u ''x'')] = None"
proof -
  have norm: "normalize_street_name (u ''a'') = u ''a''"
    by (simp add: normalize_street_name_def remove_accents_eval u_def)
  have words: "tokenize (u ''a'') = [u ''a'']"
    by (simp add: tokenize_eval)
  have sorted: "sort_misspellings [([], u ''x'')] = [([], u ''x'')]"
    by (simp add: sort_misspellings_def)
  have "tokenize [] = []" by (simp add: tokenize_def)
  then have m: "find_match [([], u ''x'')] [u ''a''] 0 = Some (0, u ''x'')"
    by (simp add: key_matches_def phrase_to_check_def py_slice_def py_replace_def)
  have "correct_loop [([], u ''x'')] [u ''a''] 0 [] = None"
  proof (cases "correct_loop [([], u ''x'')] [u ''a''] 0 []")
    case None
    then show ?thesis .
  next
    case (Some y)
    from correct_loop_stuck[OF this] m show ?thesis by simp
  qed
  then show ?thesis
    by (simp add: correct_spelling_def norm words sorted)
qed

subsection \<open>Periods in a window\<close>

text \<open>No space of the string is followed by a period.\<close>

fun no_space_period :: "ustr \<Rightarrow> bool" where
  "no_space_period (x # y # r) = (\<not> (x = 32 \<and> y = 46) \<and> no_space_period (y # r))"
| "no_space_period [x] = True"
| "no_space_period [] = True"

lemma no_space_period_tail: "no_space_period (x # xs) \<Longrightarrow> no_space_period xs"
  by (cases xs) auto

lemma no_space_period_infix: "\<not> no_space_period (p @ 32 # 46 # q)"
proof (induction p)
  case Nil
  then show ?case by simp
next
  case (Cons a p)
  then show ?case using no_space_period_tail[of a "p @ 32 # 46 # q"] by auto
qed

lemma no_space_period_append:
  "no_space_period (a @ b)
     = (no_space_period a \<and> no_space_period b
        \<and> (a = [] \<or> b = [] \<or> last a \<noteq> 32 \<or> hd b \<noteq> 46))"
proof (induction a rule: no_space_period.induct)
  case (1 x y r)
  then show ?case by auto
next
  case (2 x)
  then show ?case by (cases b) auto
next
  case 3
  then show ?case by simp
qed

lemma no_space_period_no_space: "32 \<notin> set w \<Longrightarrow> no_space_period w"
  by (induction w rule: no_space_period.induct) auto

lemma hd_glue: "w \<noteq> [] \<Longrightarrow> hd (glue (w # ws)) = hd w"
  by (cases ws) auto

lemma glue_not_Nil: "w \<noteq> [] \<Longrightarrow> glue (w # ws) \<noteq> []"
  by (cases ws) auto

lemma no_space_period_glue:
  "list_all wf_token ws \<Longrightarrow> no_space_period (glue ws)"
proof (induction ws rule: glue.induct)
  case 1
  then show ?case by simp
next
  case (2 w)
  then show ?case by (simp add: wf_token_def no_space_period_no_space)
next
  case (3 w w' ws)
  then have "wf_token w" "wf_token w'" and rest: "list_all wf_token (w' # ws)"
    by simp_all
  then have w: "w \<noteq> []" "32 \<notin> set w" and w': "w' \<noteq> []" "w' = [46] \<or> 46 \<notin> set w'"
    by (simp_all add: wf_token_def)
  have G: "no_space_period (glue (w' # ws))" using 3 rest by simp
  have lw: "last w \<noteq> 32" using w by (metis last_in_set)
  have nw: "no_space_period w" using w by (simp add: no_space_period_no_space)
  show ?case
  proof (cases "w' = [46]")
    case True
    have "no_space_period (w @ glue (w' # ws))"
      using nw G lw by (simp add: no_space_period_append)
    then show ?thesis using True by simp
  next
    case False
    with w' have "hd w' \<noteq> 46" by (cases w') auto
    then have h: "hd (glue (w' # ws)) \<noteq> 46" using w' by (simp add: hd_glue)
    have ne: "glue (w' # ws) \<noteq> []" using w' by (simp add: glue_not_Nil)
    obtain g gs where g: "glue (w' # ws) = g # gs" using ne by (cases "glue (w' # ws)") auto
    with h have "g \<noteq> 46" by simp
    with G g have "no_space_period (32 # glue (w' # ws))" by simp
    then have "no_space_period (w @ 32 # glue (w' # ws))"
      using nw lw by (simp add: no_space_period_append)
    then show ?thesis using False by simp
  qed
qed

lemma correct_loop_match:
  "i < length words \<Longrightarrow> find_match ms words i = Some (n, c)
   \<Longrightarrow> correct_loop ms words i corrected = correct_loop ms words (i + n) (corrected @ [c])"
  by (subst correct_loop.simps) simp

lemma correct_loop_no_match:
  "i < length words \<Longrightarrow> find_match ms words i = None
   \<Longrightarrow> correct_loop ms words i corrected
       = correct_loop ms words (i + 1) (corrected @ [words ! i])"
  by (subst correct_loop.simps) simp

lemma correct_loop_end:
  "length words \<le> i \<Longrightarrow> correct_loop ms words i corrected = Some corrected"
  by (subst correct_loop.simps) simp

text \<open>
  Claim C4, as amended. The phrase compared with a key is the tokens of the window in
  order, with one space before every token after the first except before a period:
  every space before a period is dropped, not only the last. So a key that holds a
  space followed by a period matches nowhere, and the key \<open>a. b\<close> matches the window
  of the tokens \<open>a\<close>, \<open>.\<close>, \<open>b\<close> and is replaced by its correction.
\<close>

theorem phrase_drops_every_space_before_period:
  "phrase_to_check (tokenize s) i n = glue (take n (drop i (tokenize s)))
   \<and> (key = p @ u '' .'' @ q \<longrightarrow> \<not> key_matches (tokenize s) i key)
   \<and> correct_spelling (u ''a . b'') [(u ''a. b'', u ''x'')] = Some (u ''x'')"
proof (intro conjI impI)
  show "phrase_to_check (tokenize s) i n = glue (take n (drop i (tokenize s)))"
    by (simp add: phrase_to_check_glue wf_tokenize)
next
  assume key: "key = p @ u '' .'' @ q"
  show "\<not> key_matches (tokenize s) i key"
  proof
    assume "key_matches (tokenize s) i key"
    then have k: "key = glue (take (length (tokenize key)) (drop i (tokenize s)))"
      by (simp add: key_matches_glue wf_tokenize)
    have "list_all wf_token (take (length (tokenize key)) (drop i (tokenize s)))"
      using wf_tokenize[of s] by (auto simp: list_all_iff dest: in_set_takeD in_set_dropD)
    then have "no_space_period key"
      using k no_space_period_glue by metis
    moreover have "\<not> no_space_period key"
      using no_space_period_infix[of p q] key by (simp add: u_def)
    ultimately show False by simp
  qed
next
  have norm: "normalize_street_name (u ''a . b'') = u ''a . b''"
    by (simp add: normalize_street_name_def remove_accents_eval u_def)
  have words: "tokenize (u ''a . b'') = [u ''a'', u ''.'', u ''b'']"
    by (simp add: tokenize_eval)
  have key: "tokenize (u ''a. b'') = [u ''a'', u ''.'', u ''b'']"
    by (simp add: tokenize_eval)
  have sorted: "sort_misspellings [(u ''a. b'', u ''x'')] = [(u ''a. b'', u ''x'')]"
    by (simp add: sort_misspellings_def)
  have m: "find_match [(u ''a. b'', u ''x'')] [u ''a'', u ''.'', u ''b''] 0 = Some (3, u ''x'')"
    by (simp add: key_matches_def key phrase_to_check_def py_slice_def py_replace_def)
      (simp add: u_def)
  have "correct_loop [(u ''a. b'', u ''x'')] [u ''a'', u ''.'', u ''b''] 0 []
      = correct_loop [(u ''a. b'', u ''x'')] [u ''a'', u ''.'', u ''b''] (0 + 3) ([] @ [u ''x''])"
    by (rule correct_loop_match[OF _ m]) simp
  also have "\<dots> = Some [u ''x'']"
    by (simp add: correct_loop_end)
  finally have "correct_loop [(u ''a. b'', u ''x'')] [u ''a'', u ''.'', u ''b''] 0 [] = Some [u ''x'']" .
  then show "correct_spelling (u ''a . b'') [(u ''a. b'', u ''x'')] = Some (u ''x'')"
    by (simp add: correct_spelling_def norm words sorted)
qed

text \<open>The key \<open>a . b\<close> and the input \<open>a . b\<close>: the key is not matched, at no position.\<close>

theorem phrase_drops_every_space_before_period_witness:
  "\<not> key_matches (tokenize (u ''a . b'')) 0 (u ''a . b'')"
  using phrase_drops_every_space_before_period
    [of "u ''a . b''" 0 0 "u ''a . b''" "u ''a''" "u '' b''"]
  by (simp add: u_def)

text \<open>
  Claim C4 as stated fails: with the key \<open>a . b\<close> the input \<open>a . b\<close> comes back as it
  is, not as the correction \<open>x\<close>.
\<close>

theorem interior_space_period_counterexample:
  "correct_spelling (u ''a . b'') [(u ''a . b'', u ''x'')] = Some (u ''a . b'')"
proof -
  have norm: "normalize_street_name (u ''a . b'') = u ''a . b''"
    by (simp add: normalize_street_name_def remove_accents_eval u_def)
  have words: "tokenize (u ''a . b'') = [u ''a'', u ''.'', u ''b'']"
    by (simp add: tokenize_eval)
  have sorted: "sort_misspellings [(u ''a . b'', u ''x'')] = [(u ''a . b'', u ''x'')]"
    by (simp add: sort_misspellings_def)
  have m: "find_match [(u ''a . b'', u ''x'')] [u ''a'', u ''.'', u ''b''] i = None" for i
    by (simp add: key_matches_def words phrase_to_check_def py_slice_def py_replace_def)
      (cases i; simp add: u_def)
  let ?ms = "[(u ''a . b'', u ''x'')]" and ?words = "[u ''a'', u ''.'', u ''b'']"
  have "correct_loop ?ms ?words 0 [] = correct_loop ?ms ?words (0 + 1) ([] @ [?words ! 0])"
    by (rule correct_loop_no_match[OF _ m]) simp
  also have "\<dots> = correct_loop ?ms ?words 1 [u ''a'']" by simp
  also have "\<dots> = correct_loop ?ms ?words (1 + 1) ([u ''a''] @ [?words ! 1])"
    by (rule correct_loop_no_match[OF _ m]) simp
  also have "\<dots> = correct_loop ?ms ?words 2 [u ''a'', u ''.'']"
    by (simp add: numeral_2_eq_2)
  also have "\<dots> = correct_loop ?ms ?words (2 + 1) ([u ''a'', u ''.''] @ [?words ! 2])"
    by (rule correct_loop_no_match[OF _ m]) simp
  also have "\<dots> = correct_loop ?ms ?words 3 [u ''a'', u ''.'', u ''b'']"
    by (simp add: numeral_3_eq_3 numeral_2_eq_2)
  also have "\<dots> = Some [u ''a'', u ''.'', u ''b'']"
    by (simp add: correct_loop_end)
  finally have "correct_loop ?ms ?words 0 [] = Some [u ''a'', u ''.'', u ''b'']" .
  then show ?thesis
    by (simp add: correct_spelling_def norm words sorted) (simp add: u_def)
qed

subsection \<open>The run of the corrector\<close>

text \<open>
  What the claim says of a run, in two predicates. An entry of the dictionary is a
  longest match at the cursor position \<open>i\<close> when its key matches there and no key
  that matches there has more tokens.
\<close>

definition longest_match :: "(ustr \<times> ustr) list \<Rightarrow> ustr list \<Rightarrow> nat \<Rightarrow> ustr \<times> ustr \<Rightarrow> bool" where
  "longest_match misspellings words i item =
     (item \<in> set misspellings \<and> key_matches words i (fst item)
      \<and> (\<forall>other \<in> set misspellings.
            key_matches words i (fst other)
              \<longrightarrow> length (tokenize (fst other)) \<le> length (tokenize (fst item))))"

text \<open>
  \<open>out\<close> is a greedy run from the cursor position \<open>i\<close>: at the end of the tokens it
  is empty; before the end its head is the correction of a longest match at \<open>i\<close>, of
  one token at least, and its tail a greedy run from the first token behind that
  window, or, when no key matches at \<open>i\<close>, its head is the token at \<open>i\<close> and its tail
  a greedy run from \<open>i + 1\<close>. So the windows are taken from the left, one after the
  other, and do not overlap.
\<close>

fun greedy_run :: "(ustr \<times> ustr) list \<Rightarrow> ustr list \<Rightarrow> nat \<Rightarrow> ustr list \<Rightarrow> bool" where
  "greedy_run misspellings words i [] = (length words \<le> i)"
| "greedy_run misspellings words i (x # out) =
     (i < length words
      \<and> ((\<exists>item \<in> set misspellings.
             longest_match misspellings words i item \<and> 0 < length (tokenize (fst item))
             \<and> x = snd item
             \<and> greedy_run misspellings words (i + length (tokenize (fst item))) out)
          \<or> ((\<forall>item \<in> set misspellings. \<not> key_matches words i (fst item))
             \<and> x = words ! i \<and> greedy_run misspellings words (i + 1) out)))"

text \<open>What the \<open>for\<close> loop returns, in a dictionary sorted as the source sorts it.\<close>

lemma find_match_Some_longest:
  assumes "list_all wf_token words"
    and "find_match (sort_misspellings misspellings) words i = Some (n, c)"
  shows "\<exists>item. longest_match misspellings words i item
     \<and> n = length (tokenize (fst item)) \<and> c = snd item"
proof -
  let ?P = "\<lambda>item. key_matches words i (fst item)"
  let ?S = "sort_misspellings misspellings"
  from assms(2) obtain x where x: "find ?P ?S = Some x"
    by (auto simp: find_match_find)
  have S: "set ?S = set misspellings" by (simp add: sort_misspellings_def)
  from find_Some_mem[OF x] S have "(fst x, snd x) \<in> set misspellings" "key_matches words i (fst x)"
    by simp_all
  from find_match_longest[OF assms(1) this] assms(2)
  show ?thesis unfolding longest_match_def by fastforce
qed

lemma find_match_None_none:
  assumes "find_match (sort_misspellings misspellings) words i = None"
  shows "\<forall>item \<in> set misspellings. \<not> key_matches words i (fst item)"
proof
  fix item assume "item \<in> set misspellings"
  then have "item \<in> set (sort_misspellings misspellings)"
    by (simp add: sort_misspellings_def)
  moreover from assms
  have "find (\<lambda>item. key_matches words i (fst item)) (sort_misspellings misspellings) = None"
    by (simp add: find_match_find)
  ultimately show "\<not> key_matches words i (fst item)"
    by (rule find_None_none[rotated])
qed

lemma correct_loop_greedy:
  assumes "correct_loop ms words i corrected = Some y"
  shows "\<not> (i < length words \<and> (\<exists>c. find_match ms words i = Some (0, c)))
     \<and> (ms = sort_misspellings misspellings \<longrightarrow> list_all wf_token words
          \<longrightarrow> (\<exists>out. y = corrected @ out \<and> greedy_run misspellings words i out))"
proof (rule correct_loop.raw_induct
    [where P = "\<lambda>ms words i corrected y.
       \<not> (i < length words \<and> (\<exists>c. find_match ms words i = Some (0, c)))
     \<and> (ms = sort_misspellings misspellings \<longrightarrow> list_all wf_token words
          \<longrightarrow> (\<exists>out. y = corrected @ out \<and> greedy_run misspellings words i out))", OF _ assms])
  fix f :: "(ustr \<times> ustr) list \<Rightarrow> ustr list \<Rightarrow> nat \<Rightarrow> ustr list \<Rightarrow> ustr list option"
    and ms words i corrected y
  assume IH: "\<And>ms words i corrected y. f ms words i corrected = Some y
      \<Longrightarrow> \<not> (i < length words \<and> (\<exists>c. find_match ms words i = Some (0, c)))
     \<and> (ms = sort_misspellings misspellings \<longrightarrow> list_all wf_token words
          \<longrightarrow> (\<exists>out. y = corrected @ out \<and> greedy_run misspellings words i out))"
    and body: "(if i < length words
      then case find_match ms words i of
           None \<Rightarrow> f ms words (i + 1) (corrected @ [words ! i])
         | Some (misspelled_len, correct) \<Rightarrow>
             f ms words (i + misspelled_len) (corrected @ [correct])
      else Some corrected) = Some y"
  have moves: "\<not> (i < length words \<and> (\<exists>c. find_match ms words i = Some (0, c)))"
  proof
    assume a: "i < length words \<and> (\<exists>c. find_match ms words i = Some (0, c))"
    then obtain c where c: "find_match ms words i = Some (0, c)" by blast
    with a body have "f ms words i (corrected @ [c]) = Some y" by simp
    from IH[OF this] a show False by simp
  qed
  have "\<exists>out. y = corrected @ out \<and> greedy_run misspellings words i out"
    if ms: "ms = sort_misspellings misspellings" and wf: "list_all wf_token words"
  proof (cases "i < length words")
    case False
    with body have "y = corrected" by simp
    with False show ?thesis by simp
  next
    case True
    show ?thesis
    proof (cases "find_match ms words i")
      case None
      with True body have "f ms words (i + 1) (corrected @ [words ! i]) = Some y" by simp
      from IH[OF this] ms wf obtain out where
        out: "y = (corrected @ [words ! i]) @ out" "greedy_run misspellings words (i + 1) out"
        by blast
      from None ms have "\<forall>item \<in> set misspellings. \<not> key_matches words i (fst item)"
        using find_match_None_none by blast
      with out(2) True have "greedy_run misspellings words i (words ! i # out)" by simp
      with out(1) show ?thesis by auto
    next
      case (Some r)
      obtain n c where r: "r = (n, c)" by (cases r)
      with True Some body have "f ms words (i + n) (corrected @ [c]) = Some y" by simp
      from IH[OF this] ms wf obtain out where
        out: "y = (corrected @ [c]) @ out" "greedy_run misspellings words (i + n) out"
        by blast
      from Some r ms find_match_Some_longest[OF wf] obtain item where
        item: "longest_match misspellings words i item" "n = length (tokenize (fst item))"
          "c = snd item"
        by blast
      from moves True Some r have "0 < n" by (cases n) auto
      moreover from item(1) have "item \<in> set misspellings" by (simp add: longest_match_def)
      ultimately have "greedy_run misspellings words i (c # out)"
        using True item out(2) by auto
      with out(1) show ?thesis by auto
    qed
  qed
  with moves show "\<not> (i < length words \<and> (\<exists>c. find_match ms words i = Some (0, c)))
     \<and> (ms = sort_misspellings misspellings \<longrightarrow> list_all wf_token words
          \<longrightarrow> (\<exists>out. y = corrected @ out \<and> greedy_run misspellings words i out))"
    by blast
qed

lemma correct_spelling_greedy:
  assumes "correct_spelling street_name misspellings = Some r"
  shows "\<exists>out. r = py_join [32] out
     \<and> greedy_run misspellings (tokenize (normalize_street_name street_name)) 0 out"
proof -
  from assms obtain y where
    y: "correct_loop (sort_misspellings misspellings)
          (tokenize (normalize_street_name street_name)) 0 [] = Some y"
    and r: "r = py_join [32] y"
    by (auto simp: correct_spelling_def)
  from correct_loop_greedy[OF y, of misspellings] wf_tokenize r
  show ?thesis by auto
qed

lemma longest_match_unique:
  assumes "list_all wf_token words" and "distinct (map fst misspellings)"
    and "longest_match misspellings words i item" and "longest_match misspellings words i item'"
  shows "item = item'"
proof -
  from assms(3,4) have "length (tokenize (fst item)) = length (tokenize (fst item'))"
    unfolding longest_match_def by (meson le_antisym)
  with assms(1,3,4) have "fst item = fst item'"
    unfolding longest_match_def using matching_keys_equal by blast
  moreover from assms(3,4) have "(fst item, snd item) \<in> set misspellings"
    "(fst item', snd item') \<in> set misspellings"
    by (simp_all add: longest_match_def)
  ultimately have "snd item = snd item'"
    using assms(2) by (metis eq_key_imp_eq_value)
  with \<open>fst item = fst item'\<close> show ?thesis by (simp add: prod_eq_iff)
qed

lemma greedy_run_unique:
  assumes "list_all wf_token words" and "distinct (map fst misspellings)"
  shows "greedy_run misspellings words i out \<Longrightarrow> greedy_run misspellings words i out'
     \<Longrightarrow> out = out'"
proof (induction out arbitrary: i out')
  case Nil
  then show ?case by (cases out') simp_all
next
  case (Cons x out)
  from Cons.prems obtain x' out2 where out': "out' = x' # out2"
    by (cases out') auto
  from Cons.prems(1) have i: "i < length words" by simp
  show ?case
  proof (cases "\<exists>item \<in> set misspellings. key_matches words i (fst item)")
    case False
    with Cons.prems out' have "x = words ! i" "x' = words ! i"
      "greedy_run misspellings words (i + 1) out" "greedy_run misspellings words (i + 1) out2"
      by (auto simp: longest_match_def)
    with Cons.IH out' show ?thesis by simp
  next
    case True
    with Cons.prems(1) obtain item where item: "longest_match misspellings words i item"
      "x = snd item" "greedy_run misspellings words (i + length (tokenize (fst item))) out"
      by auto
    from True Cons.prems(2) out' obtain item' where item': "longest_match misspellings words i item'"
      "x' = snd item'" "greedy_run misspellings words (i + length (tokenize (fst item'))) out2"
      by auto
    have "item = item'"
      by (rule longest_match_unique[OF assms item(1) item'(1)])
    with item item' Cons.IH out' show ?thesis by simp
  qed
qed

text \<open>
  Claim C1, as amended. Let \<open>words\<close> be the tokens of the normalised input, in a
  dictionary of distinct keys. Without the empty key \<open>correct_spelling\<close> returns.
  Whenever it returns, the string is the tokens and corrections of the one greedy run
  from the first token, joined by single spaces; and from every cursor position, on
  every list of tokens as the regular expression yields them, the loop appends a greedy
  run to what it has collected. At a cursor position \<open>i\<close> at which two keys \<open>a\<close> and
  \<open>b\<close> both match, the tokens of \<open>a\<close> being a proper prefix of the tokens of \<open>b\<close>,
  the \<open>for\<close> loop selects the longest match: it has more tokens than \<open>a\<close>, it is the
  entry of \<open>b\<close> unless a key of still more tokens matches at \<open>i\<close>, and every greedy
  run from \<open>i\<close> starts with its correction and goes on at the first token behind its
  window.
\<close>

theorem correct_spelling_greedy_longest:
  assumes "words = tokenize (normalize_street_name street_name)"
    and "distinct (map fst misspellings)"
  shows "([] \<notin> fst ` set misspellings
            \<longrightarrow> (\<exists>r. correct_spelling street_name misspellings = Some r))
     \<and> (\<forall>r. correct_spelling street_name misspellings = Some r
            \<longrightarrow> (\<exists>out. r = py_join [32] out \<and> greedy_run misspellings words 0 out
                   \<and> (\<forall>out'. greedy_run misspellings words 0 out' \<longrightarrow> out' = out)))
     \<and> (\<forall>ws j corrected y.
            list_all wf_token ws
            \<and> correct_loop (sort_misspellings misspellings) ws j corrected = Some y
            \<longrightarrow> (\<exists>out. y = corrected @ out \<and> greedy_run misspellings ws j out))
     \<and> ((a, ca) \<in> set misspellings \<and> (b, cb) \<in> set misspellings
          \<and> key_matches words i a \<and> key_matches words i b
          \<and> (\<exists>r. r \<noteq> [] \<and> tokenize b = tokenize a @ r)
         \<longrightarrow> (\<exists>item. longest_match misspellings words i item
                \<and> find_match (sort_misspellings misspellings) words i
                    = Some (length (tokenize (fst item)), snd item)
                \<and> length (tokenize a) < length (tokenize (fst item))
                \<and> (item = (b, cb) \<or> length (tokenize b) < length (tokenize (fst item)))
                \<and> (\<forall>x out. greedy_run misspellings words i (x # out)
                      \<longrightarrow> x = snd item
                          \<and> greedy_run misspellings words (i + length (tokenize (fst item))) out)))"
proof (intro conjI impI allI)
  assume "[] \<notin> fst ` set misspellings"
  then show "\<exists>r. correct_spelling street_name misspellings = Some r"
    by (rule correct_spelling_terminates)
next
  have wf: "list_all wf_token words"
    using assms(1) by (simp add: wf_tokenize)
  fix r assume "correct_spelling street_name misspellings = Some r"
  from correct_spelling_greedy[OF this] assms(1) obtain out where
    out: "r = py_join [32] out" "greedy_run misspellings words 0 out"
    by auto
  have "\<forall>out'. greedy_run misspellings words 0 out' \<longrightarrow> out' = out"
    using greedy_run_unique[OF wf assms(2) _ out(2)] by blast
  with out show "\<exists>out. r = py_join [32] out \<and> greedy_run misspellings words 0 out
                   \<and> (\<forall>out'. greedy_run misspellings words 0 out' \<longrightarrow> out' = out)"
    by blast
next
  fix ws j corrected y
  assume a: "list_all wf_token ws
      \<and> correct_loop (sort_misspellings misspellings) ws j corrected = Some y"
  then have "correct_loop (sort_misspellings misspellings) ws j corrected = Some y" by simp
  from correct_loop_greedy[OF this, of misspellings] a
  show "\<exists>out. y = corrected @ out \<and> greedy_run misspellings ws j out"
    by simp
next
  have wf: "list_all wf_token words"
    using assms(1) by (simp add: wf_tokenize)
  assume pre: "(a, ca) \<in> set misspellings \<and> (b, cb) \<in> set misspellings
          \<and> key_matches words i a \<and> key_matches words i b
          \<and> (\<exists>r. r \<noteq> [] \<and> tokenize b = tokenize a @ r)"
  then have ab: "length (tokenize a) < length (tokenize b)" by auto
  from pre have b: "(b, cb) \<in> set misspellings" "key_matches words i b" by simp_all
  from find_match_longest[OF wf b]
  obtain k c where kc: "(k, c) \<in> set misspellings" "key_matches words i k"
      "find_match (sort_misspellings misspellings) words i = Some (length (tokenize k), c)"
      "\<forall>item \<in> set misspellings.
           key_matches words i (fst item) \<longrightarrow> length (tokenize (fst item)) \<le> length (tokenize k)"
    by blast
  have longest: "longest_match misspellings words i (k, c)"
    using kc(1,2,4) by (simp add: longest_match_def)
  from kc(4) b have bk: "length (tokenize b) \<le> length (tokenize k)" by force
  with ab have ak: "length (tokenize a) < length (tokenize k)" by simp
  have which: "(k, c) = (b, cb) \<or> length (tokenize b) < length (tokenize k)"
  proof (cases "length (tokenize b) < length (tokenize k)")
    case True
    then show ?thesis by simp
  next
    case False
    with bk have "length (tokenize k) = length (tokenize b)" by simp
    then have "k = b" by (rule matching_keys_equal[OF wf kc(2) b(2)])
    moreover from this kc(1) assms(2) b(1) have "c = cb"
      by (metis eq_key_imp_eq_value)
    ultimately show ?thesis by simp
  qed
  have run: "\<forall>x out. greedy_run misspellings words i (x # out)
      \<longrightarrow> x = snd (k, c)
          \<and> greedy_run misspellings words (i + length (tokenize (fst (k, c)))) out"
  proof (intro allI impI)
    fix x out assume g: "greedy_run misspellings words i (x # out)"
    with b obtain item where item: "longest_match misspellings words i item" "x = snd item"
      "greedy_run misspellings words (i + length (tokenize (fst item))) out"
      by auto
    have "item = (k, c)"
      by (rule longest_match_unique[OF wf assms(2) item(1) longest])
    with item show "x = snd (k, c)
          \<and> greedy_run misspellings words (i + length (tokenize (fst (k, c)))) out"
      by simp
  qed
  show "\<exists>item. longest_match misspellings words i item
                \<and> find_match (sort_misspellings misspellings) words i
                    = Some (length (tokenize (fst item)), snd item)
                \<and> length (tokenize a) < length (tokenize (fst item))
                \<and> (item = (b, cb) \<or> length (tokenize b) < length (tokenize (fst item)))
                \<and> (\<forall>x out. greedy_run misspellings words i (x # out)
                      \<longrightarrow> x = snd item
                          \<and> greedy_run misspellings words (i + length (tokenize (fst item))) out)"
    by (rule exI[of _ "(k, c)"]) (use longest kc(3) ak which run in simp)
qed

text \<open>
  The keys \<open>dr\<close> and \<open>dr ortega\<close> both match at the start of \<open>dr ortega\<close>; the longer
  one is replaced, and the correction alone is the greedy run.
\<close>

theorem correct_spelling_greedy_longest_witness:
  "correct_spelling (u ''dr ortega'') [(u ''dr'', u ''doctor''), (u ''dr ortega'', u ''x'')]
     = Some (u ''x'')
   \<and> greedy_run [(u ''dr'', u ''doctor''), (u ''dr ortega'', u ''x'')]
       (tokenize (normalize_street_name (u ''dr ortega''))) 0 [u ''x'']"
proof -
  let ?ms = "[(u ''dr'', u ''doctor''), (u ''dr ortega'', u ''x'')]"
  let ?words = "[u ''dr'', u ''ortega'']"
  have norm: "normalize_street_name (u ''dr ortega'') = u ''dr ortega''"
    by (simp add: normalize_street_name_def remove_accents_eval u_def)
  have words: "?words = tokenize (normalize_street_name (u ''dr ortega''))"
    by (simp add: norm) (simp add: tokenize_eval)
  have ta: "tokenize (u ''dr'') = [u ''dr'']"
    by (simp add: tokenize_eval)
  have tb: "tokenize (u ''dr ortega'') = [u ''dr'', u ''ortega'']"
    by (simp add: tokenize_eval)
  have ma: "key_matches ?words 0 (u ''dr'')"
    by (simp add: key_matches_def ta phrase_to_check_def py_slice_def py_replace_def)
      (simp add: u_def)
  have mb: "key_matches ?words 0 (u ''dr ortega'')"
    by (simp add: key_matches_def tb phrase_to_check_def py_slice_def py_replace_def)
      (simp add: u_def)
  have d: "distinct (map fst ?ms)" by (simp add: u_def)
  have pre: "\<exists>r. r \<noteq> [] \<and> tokenize (u ''dr ortega'') = tokenize (u ''dr'') @ r"
    by (simp add: ta tb)
  have ne: "[] \<notin> fst ` set ?ms" by (simp add: u_def)
  have mem: "(u ''dr'', u ''doctor'') \<in> set ?ms" "(u ''dr ortega'', u ''x'') \<in> set ?ms"
    by simp_all
  note inst = correct_spelling_greedy_longest[OF words d,
      of "u ''dr''" "u ''doctor''" "u ''dr ortega''" "u ''x''" 0]
  note pair = inst[THEN conjunct2, THEN conjunct2, THEN conjunct2, rule_format,
      OF conjI[OF mem(1) conjI[OF mem(2) conjI[OF ma conjI[OF mb pre]]]]]
  from pair obtain item where item: "longest_match ?ms ?words 0 item"
    "find_match (sort_misspellings ?ms) ?words 0 = Some (length (tokenize (fst item)), snd item)"
    "length (tokenize (u ''dr'')) < length (tokenize (fst item))"
    "\<forall>x out. greedy_run ?ms ?words 0 (x # out)
        \<longrightarrow> x = snd item \<and> greedy_run ?ms ?words (0 + length (tokenize (fst item))) out"
    by blast
  from item(1) have "item = (u ''dr'', u ''doctor'') \<or> item = (u ''dr ortega'', u ''x'')"
    by (simp add: longest_match_def)
  with item(3) have it: "item = (u ''dr ortega'', u ''x'')" by auto
  with item(2) have m: "find_match (sort_misspellings ?ms) ?words 0 = Some (2, u ''x'')"
    by (simp add: tb)
  have "correct_loop (sort_misspellings ?ms) ?words 0 []
      = correct_loop (sort_misspellings ?ms) ?words (0 + 2) ([] @ [u ''x''])"
    by (rule correct_loop_match[OF _ m]) simp
  also have "\<dots> = Some [u ''x'']"
    by (simp add: correct_loop_end)
  finally have loop: "correct_loop (sort_misspellings ?ms) ?words 0 [] = Some [u ''x'']" .
  then have r: "correct_spelling (u ''dr ortega'') ?ms = Some (u ''x'')"
    using words by (simp add: correct_spelling_def)
  have wf: "list_all wf_token ?words"
    by (subst words) (rule wf_tokenize)
  from inst[THEN conjunct2, THEN conjunct2, THEN conjunct1, rule_format, OF conjI[OF wf loop]]
  have appended: "greedy_run ?ms ?words 0 [u ''x'']"
    by simp
  from inst[THEN conjunct1, rule_format, OF ne]
  obtain r' where r': "correct_spelling (u ''dr ortega'') ?ms = Some r'"
    by blast
  with r have "r' = u ''x''" by simp
  from inst[THEN conjunct2, THEN conjunct1, rule_format, OF r']
  obtain out where out: "greedy_run ?ms ?words 0 out"
    by blast
  then obtain x rest where xr: "out = x # rest" by (cases out) simp_all
  with out have g: "greedy_run ?ms ?words 0 (x # rest)" by simp
  from item(4)[rule_format, OF g] it
  have x: "x = u ''x''" and rest: "greedy_run ?ms ?words (length (tokenize (u ''dr ortega''))) rest"
    by simp_all
  from rest have "rest = []" by (cases rest) (simp_all add: tb)
  with x xr have "out = [u ''x'']" by simp
  with out appended r words show ?thesis by simp
qed

text \<open>
  Claim C1 as stated fails: of the keys \<open>a\<close> and \<open>a b\<close>, which both match at the
  start of \<open>a b c\<close>, the longer is not the one replaced when the key \<open>a b c\<close> is in
  the dictionary too. The result is \<open>z\<close>, not \<open>y c\<close>.
\<close>

theorem longer_key_not_replaced_counterexample:
  "key_matches (tokenize (normalize_street_name (u ''a b c''))) 0 (u ''a'')
   \<and> key_matches (tokenize (normalize_street_name (u ''a b c''))) 0 (u ''a b'')
   \<and> tokenize (u ''a b'') = tokenize (u ''a'') @ [u ''b'']
   \<and> correct_spelling (u ''a b c'')
        [(u ''a'', u ''x''), (u ''a b'', u ''y''), (u ''a b c'', u ''z'')] = Some (u ''z'')"
proof -
  let ?ms = "[(u ''a'', u ''x''), (u ''a b'', u ''y''), (u ''a b c'', u ''z'')]"
  let ?words = "[u ''a'', u ''b'', u ''c'']"
  have norm: "normalize_street_name (u ''a b c'') = u ''a b c''"
    by (simp add: normalize_street_name_def remove_accents_eval u_def)
  have words: "tokenize (u ''a b c'') = ?words"
    by (simp add: tokenize_eval)
  have ta: "tokenize (u ''a'') = [u ''a'']"
    by (simp add: tokenize_eval)
  have tb: "tokenize (u ''a b'') = [u ''a'', u ''b'']"
    by (simp add: tokenize_eval)
  have ma: "key_matches ?words 0 (u ''a'')"
    by (simp add: key_matches_def ta phrase_to_check_def py_slice_def py_replace_def)
      (simp add: u_def)
  have mb: "key_matches ?words 0 (u ''a b'')"
    by (simp add: key_matches_def tb phrase_to_check_def py_slice_def py_replace_def)
      (simp add: u_def)
  have mc: "key_matches ?words 0 (u ''a b c'')"
    by (simp add: key_matches_def words phrase_to_check_def py_slice_def py_replace_def)
      (simp add: u_def)
  have sorted: "sort_misspellings ?ms
      = [(u ''a b c'', u ''z''), (u ''a b'', u ''y''), (u ''a'', u ''x'')]"
    by (simp add: sort_misspellings_def u_def)
  have m: "find_match (sort_misspellings ?ms) ?words 0 = Some (3, u ''z'')"
    by (simp add: sorted mc words)
  have "correct_loop (sort_misspellings ?ms) ?words 0 []
      = correct_loop (sort_misspellings ?ms) ?words (0 + 3) ([] @ [u ''z''])"
    by (rule correct_loop_match[OF _ m]) simp
  also have "\<dots> = Some [u ''z'']"
    by (simp add: correct_loop_end)
  finally have "correct_spelling (u ''a b c'') ?ms = Some (u ''z'')"
    by (simp add: correct_spelling_def norm words)
  with ma mb ta tb show ?thesis by (simp add: norm words)
qed

section \<open>Folding diacritics\<close>

text \<open>
  What \<open>remove_accents\<close> makes of one lower-case code point: a protected character
  stays, any other is decomposed and loses what is not ASCII.
\<close>

definition protected_cp :: "nat \<Rightarrow> bool" where
  "protected_cp c = (c = 241 \<or> c = 252 \<or> c = 176 \<or> c = 186)"

definition ascii_fold :: "nat \<Rightarrow> ustr" where
  "ascii_fold c = encode_ascii_ignore (decompose_cp c)"

definition fold_cp :: "nat \<Rightarrow> ustr" where
  "fold_cp c = (if protected_cp c then [c] else ascii_fold c)"

text \<open>A protected character, or an ASCII character that is not a capital letter.\<close>

definition folded_cp :: "nat \<Rightarrow> bool" where
  "folded_cp x = (protected_cp x \<or> (x < 128 \<and> \<not> (65 \<le> x \<and> x \<le> 90)))"

lemma decompose_cp_ascii: "c < 128 \<Longrightarrow> decompose_cp c = [c]"
  by (simp add: decompose_cp_def)

lemma ascii_fold_ascii: "c < 128 \<Longrightarrow> ascii_fold c = [c]"
  by (simp add: ascii_fold_def decompose_cp_ascii encode_ascii_ignore_def)

lemma ascii_fold_latin1_signs:
  "128 \<le> c \<Longrightarrow> c < 192 \<Longrightarrow> set (ascii_fold c) \<subseteq> {32, 97, 50, 51, 49, 111, 52}"
  by (auto simp: ascii_fold_def decompose_cp_def encode_ascii_ignore_def split: if_splits)

lemma latin1_letters_lower:
  "list_all (\<lambda>(b, m). (b = 0 \<or> (97 \<le> b \<and> b \<le> 122)) \<and> 128 \<le> m \<or> b = 0)
     (drop 31 latin1_letters)"
  by (simp add: latin1_letters_def)

lemma latin1_letters_23: "latin1_letters ! 23 = (0, 0)"
  by (simp add: latin1_letters_def)

lemma length_latin1_letters: "length latin1_letters = 64"
  by (simp add: latin1_letters_def)

lemma ascii_fold_latin1_letters:
  assumes "c = 215 \<or> 223 \<le> c" and "c < 256"
  shows "\<forall>x \<in> set (ascii_fold c). 97 \<le> x \<and> x \<le> 122"
proof -
  obtain b m where bm: "latin1_letters ! (c - 192) = (b, m)"
    by (cases "latin1_letters ! (c - 192)")
  have good: "(b = 0 \<or> (97 \<le> b \<and> b \<le> 122)) \<and> 128 \<le> m \<or> b = 0"
  proof (cases "c = 215")
    case True
    then show ?thesis using bm by (simp add: latin1_letters_23)
  next
    case False
    with assms have c: "223 \<le> c" by simp
    then have "latin1_letters ! (c - 192) = drop 31 latin1_letters ! (c - 223)"
      using assms(2) by (simp add: length_latin1_letters)
    moreover have "c - 223 < length (drop 31 latin1_letters)"
      using assms(2) c by (simp add: length_latin1_letters)
    ultimately show ?thesis
      using latin1_letters_lower bm by (auto simp: list_all_length)
  qed
  have "192 \<le> c \<and> c \<le> 255" using assms by auto
  then have "decompose_cp c = (if b = 0 then [c] else [b, m])"
    using bm by (simp add: decompose_cp_def)
  then show ?thesis
    using good assms by (auto simp: ascii_fold_def encode_ascii_ignore_def)
qed

lemma lower_cp_range:
  "c < 256 \<Longrightarrow> lower_cp c < 256 \<and> \<not> (65 \<le> lower_cp c \<and> lower_cp c \<le> 90)
     \<and> (lower_cp c < 192 \<or> lower_cp c = 215 \<or> 223 \<le> lower_cp c)"
  by (auto simp: lower_cp_def)

lemma folded_fold_cp_lower:
  assumes "c < 256"
  shows "\<forall>x \<in> set (fold_cp (lower_cp c)). folded_cp x"
proof (cases "protected_cp (lower_cp c)")
  case True
  then show ?thesis by (simp add: fold_cp_def folded_cp_def)
next
  case False
  let ?c = "lower_cp c"
  from lower_cp_range[OF assms]
  have r: "?c < 256" "\<not> (65 \<le> ?c \<and> ?c \<le> 90)" "?c < 192 \<or> ?c = 215 \<or> 223 \<le> ?c"
    by simp_all
  consider "?c < 128" | "128 \<le> ?c" "?c < 192" | "?c = 215 \<or> 223 \<le> ?c"
    using r(3) by linarith
  then have "\<forall>x \<in> set (ascii_fold ?c). x < 128 \<and> \<not> (65 \<le> x \<and> x \<le> 90)"
  proof cases
    case 1
    then show ?thesis using r(2) by (simp add: ascii_fold_ascii)
  next
    case 2
    then show ?thesis using ascii_fold_latin1_signs[of ?c] by auto
  next
    case 3
    then show ?thesis using ascii_fold_latin1_letters[OF 3 r(1)] by auto
  qed
  then show ?thesis using False by (simp add: fold_cp_def folded_cp_def)
qed

lemma folded_cp_stable:
  assumes "folded_cp x"
  shows "lower_cp x = x \<and> fold_cp x = [x] \<and> x < 256 \<and> \<not> (65 \<le> x \<and> x \<le> 90)"
  using assms
  by (auto simp: folded_cp_def protected_cp_def lower_cp_def fold_cp_def ascii_fold_ascii)

subsection \<open>The placeholders\<close>

lemma replace_ne_single:
  "replace_ne [c] new s = concat (map (\<lambda>x. if x = c then new else [x]) s)"
  by (induction s) auto

lemma concat_map_concat_map:
  "concat (map f (concat (map g s))) = concat (map (\<lambda>x. concat (map f (g x))) s)"
  by (induction s) auto

text \<open>The first loop of \<open>remove_accents\<close> writes a placeholder for each protected character.\<close>

definition protect_cp :: "nat \<Rightarrow> ustr" where
  "protect_cp c =
     (if c = 241 then placeholder 0 else if c = 252 then placeholder 1
      else if c = 176 then placeholder 2 else if c = 186 then placeholder 3 else [c])"

lemma placeholder_numeral:
  "placeholder 1 = placeholder (Suc 0)" "placeholder 2 = placeholder (Suc (Suc 0))"
  "placeholder 3 = placeholder (Suc (Suc (Suc 0)))"
  by (simp_all add: numeral_2_eq_2 numeral_3_eq_3)

lemma protect_all:
  "py_replace [186] (placeholder 3) (py_replace [176] (placeholder 2)
     (py_replace [252] (placeholder 1) (py_replace [241] (placeholder 0) t)))
   = concat (map protect_cp t)"
proof -
  have "concat (map (\<lambda>x. if x = 186 then placeholder 3 else [x])
          (concat (map (\<lambda>x. if x = 176 then placeholder 2 else [x])
            (concat (map (\<lambda>x. if x = 252 then placeholder 1 else [x])
              (concat (map (\<lambda>x. if x = 241 then placeholder 0 else [x]) t)))))))
        = concat (map protect_cp t)"
    unfolding concat_map_concat_map
    by (intro arg_cong[where f = concat] map_cong refl)
      (simp add: protect_cp_def placeholder_numeral placeholder_simps)
  then show ?thesis
    by (simp only: py_replace_def replace_ne_single list.distinct if_False)
qed

text \<open>The decomposition and the encoding work code point by code point.\<close>

definition block_cp :: "nat \<Rightarrow> ustr" where
  "block_cp c = (if protected_cp c then protect_cp c else ascii_fold c)"

lemma encode_nfkd_concat:
  "encode_ascii_ignore (nfkd (concat (map g t)))
     = concat (map (\<lambda>c. encode_ascii_ignore (nfkd (g c))) t)"
  by (induction t) (simp_all add: nfkd_def encode_ascii_ignore_def)

lemma encode_nfkd_ascii:
  "list_all (\<lambda>c. c < 128) s \<Longrightarrow> encode_ascii_ignore (nfkd s) = s"
  by (induction s) (simp_all add: nfkd_def encode_ascii_ignore_def decompose_cp_ascii)

lemma encode_nfkd_single: "encode_ascii_ignore (nfkd [c]) = ascii_fold c"
  by (simp add: nfkd_def ascii_fold_def)

lemma encode_nfkd_protect:
  "encode_ascii_ignore (nfkd (concat (map protect_cp t))) = concat (map block_cp t)"
proof -
  have "encode_ascii_ignore (nfkd (protect_cp c)) = block_cp c" for c
  proof (cases "protected_cp c")
    case True
    then show ?thesis
      by (auto simp: protect_cp_def block_cp_def protected_cp_def placeholder_numeral
          placeholder_simps encode_nfkd_ascii)
  next
    case False
    then show ?thesis
      by (simp add: protect_cp_def block_cp_def protected_cp_def encode_nfkd_single)
  qed
  then show ?thesis by (simp add: encode_nfkd_concat)
qed

text \<open>
  The second loop. The string it works on is a sequence of blocks: placeholders, and
  pieces without the letter \<open>P\<close> with which every placeholder starts. Replacing one
  placeholder replaces exactly the blocks that are this placeholder.
\<close>

definition ph_tail :: ustr where
  "ph_tail = [76, 65, 67, 69, 72, 79, 76, 68, 69, 82, 95]"

definition ok_block :: "ustr \<Rightarrow> bool" where
  "ok_block b = ((\<exists>d. d \<noteq> 80 \<and> b = 80 # ph_tail @ [d]) \<or> 80 \<notin> set b)"

lemma replace_ne_miss:
  assumes "d \<noteq> d'" and "d \<noteq> 80"
  shows "replace_ne (80 # ph_tail @ [d']) new ((80 # ph_tail @ [d]) @ rest)
     = (80 # ph_tail @ [d]) @ replace_ne (80 # ph_tail @ [d']) new rest"
proof -
  have a: "\<not> starts_with ((80 # ph_tail @ [d]) @ rest) (80 # ph_tail @ [d'])"
    using assms(1) by (simp add: ph_tail_def)
  have "replace_ne (80 # ph_tail @ [d']) new ((80 # ph_tail @ [d]) @ rest)
        = 80 # replace_ne (80 # ph_tail @ [d']) new ((ph_tail @ [d]) @ rest)"
    using a by simp
  also have "replace_ne (80 # ph_tail @ [d']) new ((ph_tail @ [d]) @ rest)
        = (ph_tail @ [d]) @ replace_ne (80 # ph_tail @ [d']) new rest"
    using assms(2) by (intro replace_ne_skip) (simp_all add: ph_tail_def)
  finally show ?thesis by simp
qed

lemma replace_blocks:
  "list_all ok_block bs \<Longrightarrow>
   replace_ne (80 # ph_tail @ [d']) new (concat bs)
     = concat (map (\<lambda>b. if b = 80 # ph_tail @ [d'] then new else b) bs)"
proof (induction bs)
  case Nil
  then show ?case by simp
next
  case (Cons b bs)
  then have IH: "replace_ne (80 # ph_tail @ [d']) new (concat bs)
     = concat (map (\<lambda>b. if b = 80 # ph_tail @ [d'] then new else b) bs)"
    and b: "ok_block b" by simp_all
  from b consider d where "d \<noteq> 80" "b = 80 # ph_tail @ [d]" | "80 \<notin> set b"
    by (auto simp: ok_block_def)
  then show ?case
  proof cases
    case 1
    show ?thesis
    proof (cases "d = d'")
      case True
      have "replace_ne (80 # ph_tail @ [d']) new ((80 # ph_tail @ [d']) @ concat bs)
          = new @ replace_ne (80 # ph_tail @ [d']) new (concat bs)"
        by (rule replace_ne_hit) simp
      then show ?thesis using 1 True IH by simp
    next
      case False
      have "replace_ne (80 # ph_tail @ [d']) new ((80 # ph_tail @ [d]) @ concat bs)
          = (80 # ph_tail @ [d]) @ replace_ne (80 # ph_tail @ [d']) new (concat bs)"
        by (rule replace_ne_miss[OF False 1(1)])
      then show ?thesis using 1 False IH by simp
    qed
  next
    case 2
    have "replace_ne (80 # ph_tail @ [d']) new (b @ concat bs)
        = b @ replace_ne (80 # ph_tail @ [d']) new (concat bs)"
      using 2 by (intro replace_ne_skip) simp_all
    moreover have "b \<noteq> 80 # ph_tail @ [d']" using 2 by auto
    ultimately show ?thesis using IH by simp
  qed
qed

lemma ok_block_replaced:
  "list_all ok_block bs \<Longrightarrow> 80 \<notin> set new
   \<Longrightarrow> list_all ok_block (map (\<lambda>b. if b = old then new else b) bs)"
  by (induction bs) (auto simp: ok_block_def)

lemma placeholder_ph_tail:
  "placeholder 0 = 80 # ph_tail @ [48]" "placeholder 1 = 80 # ph_tail @ [49]"
  "placeholder 2 = 80 # ph_tail @ [50]" "placeholder 3 = 80 # ph_tail @ [51]"
  "placeholder (Suc 0) = 80 # ph_tail @ [49]"
  by (simp_all add: placeholder_numeral placeholder_simps ph_tail_def)

definition restore_block :: "ustr \<Rightarrow> ustr" where
  "restore_block b =
     (if b = placeholder 0 then [241] else if b = placeholder 1 then [252]
      else if b = placeholder 2 then [176] else if b = placeholder 3 then [186] else b)"

lemma restore_all:
  assumes "list_all ok_block bs"
  shows "py_replace (placeholder 3) [186] (py_replace (placeholder 2) [176]
       (py_replace (placeholder 1) [252] (py_replace (placeholder 0) [241] (concat bs))))
     = concat (map restore_block bs)"
proof -
  let ?r0 = "\<lambda>b. if b = 80 # ph_tail @ [48] then [241] else b"
  let ?r1 = "\<lambda>b. if b = 80 # ph_tail @ [49] then [252] else b"
  let ?r2 = "\<lambda>b. if b = 80 # ph_tail @ [50] then [176] else b"
  let ?r3 = "\<lambda>b. if b = 80 # ph_tail @ [51] then [186] else b"
  have ok0: "list_all ok_block (map ?r0 bs)"
    by (rule ok_block_replaced[OF assms]) simp
  have ok1: "list_all ok_block (map ?r1 (map ?r0 bs))"
    by (rule ok_block_replaced[OF ok0]) simp
  have ok2: "list_all ok_block (map ?r2 (map ?r1 (map ?r0 bs)))"
    by (rule ok_block_replaced[OF ok1]) simp
  have s0: "replace_ne (80 # ph_tail @ [48]) [241] (concat bs) = concat (map ?r0 bs)"
    by (rule replace_blocks[OF assms])
  have s1: "replace_ne (80 # ph_tail @ [49]) [252] (concat (map ?r0 bs))
      = concat (map ?r1 (map ?r0 bs))"
    by (rule replace_blocks[OF ok0])
  have s2: "replace_ne (80 # ph_tail @ [50]) [176] (concat (map ?r1 (map ?r0 bs)))
      = concat (map ?r2 (map ?r1 (map ?r0 bs)))"
    by (rule replace_blocks[OF ok1])
  have s3: "replace_ne (80 # ph_tail @ [51]) [186] (concat (map ?r2 (map ?r1 (map ?r0 bs))))
      = concat (map ?r3 (map ?r2 (map ?r1 (map ?r0 bs))))"
    by (rule replace_blocks[OF ok2])
  have comp: "?r3 (?r2 (?r1 (?r0 b))) = restore_block b" for b
    by (simp add: restore_block_def placeholder_ph_tail ph_tail_def)
  have "map ?r3 (map ?r2 (map ?r1 (map ?r0 bs))) = map restore_block bs"
    by (simp only: map_map comp_def comp)
  then show ?thesis
    by (simp only: py_replace_def placeholder_ph_tail list.distinct if_False s0 s1 s2 s3)
qed

text \<open>
  \<open>remove_accents\<close> code point by code point, for a string in which no code point
  other than a protected one folds to a string with a capital \<open>P\<close>.
\<close>

lemma remove_accents_fold:
  assumes "list_all (\<lambda>c. protected_cp c \<or> 80 \<notin> set (ascii_fold c)) (py_lower s)"
  shows "remove_accents s = concat (map fold_cp (py_lower s))"
proof -
  let ?t = "py_lower s"
  have ok: "list_all ok_block (map block_cp ?t)"
    using assms
    by (auto simp: list_all_iff ok_block_def block_cp_def protect_cp_def protected_cp_def
        placeholder_ph_tail)
  have "restore_block (block_cp c) = fold_cp c"
    if "protected_cp c \<or> 80 \<notin> set (ascii_fold c)" for c
  proof (cases "protected_cp c")
    case True
    then show ?thesis
      by (auto simp: restore_block_def block_cp_def protect_cp_def fold_cp_def protected_cp_def
          placeholder_ph_tail)
  next
    case False
    with that have "80 \<notin> set (ascii_fold c)" by simp
    then have "ascii_fold c \<noteq> placeholder 0" "ascii_fold c \<noteq> placeholder 1"
      "ascii_fold c \<noteq> placeholder 2" "ascii_fold c \<noteq> placeholder 3"
      by (auto simp: placeholder_ph_tail)
    with False show ?thesis
      by (simp add: restore_block_def block_cp_def fold_cp_def)
  qed
  then have "map restore_block (map block_cp ?t) = map fold_cp ?t"
    using assms by (simp only: map_map comp_def list_all_iff map_eq_conv) blast
  then show ?thesis
    by (simp only: remove_accents_unfold protect_all encode_nfkd_protect restore_all[OF ok])
qed

subsection \<open>Strings of ASCII and Latin-1\<close>

lemma not_folded_cp_P: "\<not> folded_cp 80"
  by (simp add: folded_cp_def protected_cp_def)

lemma remove_accents_latin1:
  assumes "\<forall>c \<in> set s. c < 256"
  shows "remove_accents s = concat (map fold_cp (py_lower s))"
proof (rule remove_accents_fold)
  show "list_all (\<lambda>c. protected_cp c \<or> 80 \<notin> set (ascii_fold c)) (py_lower s)"
    unfolding list_all_iff py_lower_def
  proof
    fix c' assume "c' \<in> set (map lower_cp s)"
    then obtain c where c: "c \<in> set s" "c' = lower_cp c" by auto
    with assms have "c < 256" by blast
    then have "\<forall>x \<in> set (fold_cp c'). folded_cp x"
      unfolding c(2) by (rule folded_fold_cp_lower)
    then have "80 \<notin> set (fold_cp c')" using not_folded_cp_P by blast
    then show "protected_cp c' \<or> 80 \<notin> set (ascii_fold c')"
      by (simp add: fold_cp_def split: if_splits)
  qed
qed

lemma folded_remove_accents:
  assumes "\<forall>c \<in> set s. c < 256"
  shows "\<forall>x \<in> set (remove_accents s). folded_cp x"
  using assms by (auto simp: remove_accents_latin1 py_lower_def folded_fold_cp_lower)

text \<open>On a string of code points up to U+00FF the folding is idempotent.\<close>

lemma remove_accents_latin1_idempotent:
  assumes "\<forall>c \<in> set s. c < 256"
  shows "remove_accents (remove_accents s) = remove_accents s"
proof -
  let ?out = "remove_accents s"
  have f: "\<forall>x \<in> set ?out. folded_cp x"
    using assms by (rule folded_remove_accents)
  then have r: "\<forall>x \<in> set ?out. x < 256"
    using folded_cp_stable by blast
  have "py_lower ?out = ?out"
    unfolding py_lower_def using f folded_cp_stable by (simp add: map_idI)
  moreover have "concat (map fold_cp ?out) = ?out"
  proof -
    have "map fold_cp ?out = map (\<lambda>x. [x]) ?out"
      using f folded_cp_stable by (simp add: map_eq_conv)
    then have "concat (map fold_cp ?out) = concat (map (\<lambda>x. [x]) ?out)"
      by (rule arg_cong)
    then show ?thesis by simp
  qed
  ultimately show ?thesis
    using remove_accents_latin1[OF r] by simp
qed

subsection \<open>Folding twice\<close>












text \<open>
  Claim C6. On a string of protected characters and ASCII letters, \<open>remove_accents\<close>
  leaves every protected character as it is and puts every other character in lower
  case; the string of the test folds as the test says, and the empty string folds to
  itself.
\<close>

theorem remove_accents_protected_and_letters:
  "((\<forall>c \<in> set s. [c] \<in> set default_protected \<or> (65 \<le> c \<and> c \<le> 90) \<or> (97 \<le> c \<and> c \<le> 122))
     \<longrightarrow> remove_accents s = map (\<lambda>c. if [c] \<in> set default_protected then c else lower_cp c) s)
   \<and> remove_accents
        [193, 201, 205, 211, 218, 32, 252, 233, 32, 241, 252, 32, 80, 186, 32, 112, 176]
       = [97, 101, 105, 111, 117, 32, 252, 101, 32, 241, 252, 32, 112, 186, 32, 112, 176]
   \<and> remove_accents [] = []"
proof (intro conjI impI)
  assume a: "\<forall>c \<in> set s. [c] \<in> set default_protected \<or> (65 \<le> c \<and> c \<le> 90) \<or> (97 \<le> c \<and> c \<le> 122)"
  have p: "([c] \<in> set default_protected) = protected_cp c" for c
    by (auto simp: default_protected_def protected_cp_def)
  from a have r: "\<forall>c \<in> set s. c < 256"
    by (auto simp: p protected_cp_def)
  have "fold_cp (lower_cp c) = [if protected_cp c then c else lower_cp c]"
    if "protected_cp c \<or> (65 \<le> c \<and> c \<le> 90) \<or> (97 \<le> c \<and> c \<le> 122)" for c
    using that
    by (auto simp: fold_cp_def protected_cp_def lower_cp_def ascii_fold_ascii)
  then have "map fold_cp (py_lower s)
      = map (\<lambda>c. [if protected_cp c then c else lower_cp c]) s"
    using a by (simp add: py_lower_def p)
  then have "concat (map fold_cp (py_lower s))
      = map (\<lambda>c. if protected_cp c then c else lower_cp c) s"
    by simp
  then show "remove_accents s = map (\<lambda>c. if [c] \<in> set default_protected then c else lower_cp c) s"
    using remove_accents_latin1[OF r] by (simp add: p)
next
  have "remove_accents
        [193, 201, 205, 211, 218, 32, 252, 233, 32, 241, 252, 32, 80, 186, 32, 112, 176]
      = concat (map fold_cp (py_lower
        [193, 201, 205, 211, 218, 32, 252, 233, 32, 241, 252, 32, 80, 186, 32, 112, 176]))"
    by (rule remove_accents_latin1) simp
  also have "\<dots> = [97, 101, 105, 111, 117, 32, 252, 101, 32, 241, 252, 32, 112, 186, 32, 112, 176]"
    by (simp add: py_lower_def lower_cp_def fold_cp_def protected_cp_def ascii_fold_def
        decompose_cp_def latin1_letters_def encode_ascii_ignore_def)
  finally show "remove_accents
        [193, 201, 205, 211, 218, 32, 252, 233, 32, 241, 252, 32, 80, 186, 32, 112, 176]
       = [97, 101, 105, 111, 117, 32, 252, 101, 32, 241, 252, 32, 112, 186, 32, 112, 176]" .
next
  show "remove_accents [] = []"
    by (simp add: remove_accents_eval)
qed

text \<open>\<open>P\<close> and the protected U+00F1.\<close>

theorem remove_accents_protected_and_letters_witness:
  "remove_accents [80, 241] = [112, 241]"
  using remove_accents_protected_and_letters[of "[80, 241]"]
  by (simp add: default_protected_def lower_cp_def)

end
